theory Spec2Isabelle
  imports Complex_Main
begin

section \<open>JavaScript numbers\<close>

text \<open>
  A JavaScript number is an IEEE 754 binary64 value: NaN, one of the two infinities, or a
  finite value \<open>m * 2 ^ e\<close> with \<open>\<bar>m\<bar> < 2 ^ 53\<close> and \<open>- 1074 \<le> e \<le> 971\<close>.  A finite value is
  carried by the real number it denotes.  The two zeros are identified: \<open>===\<close>, \<open><\<close> and
  \<open>%\<close> do not tell them apart, and the library never divides by a zero.
\<close>

datatype number = NaN | PInf | NInf | Fin real

text \<open>Rounding a real to the nearest integer, ties to the even neighbour.\<close>

definition rne :: "real \<Rightarrow> int" where
  "rne q = (let f = \<lfloor>q\<rfloor>; d = q - of_int f in
     if d < 1 / 2 then f else if 1 / 2 < d then f + 1 else if even f then f else f + 1)"

text \<open>
  The exponent of the last mantissa bit of the doubles around \<open>x\<close>: 52 places below the
  leading bit of \<open>x\<close>, and never below the subnormal spacing \<open>2 ^ - 1074\<close>.
\<close>

definition quantum :: "real \<Rightarrow> int" where
  "quantum x = max (\<lfloor>log 2 \<bar>x\<bar>\<rfloor> - 52) (- 1074)"

text \<open>
  Every arithmetic operator returns the exact result rounded to the nearest double, ties
  to even, and an infinity when the rounded magnitude reaches \<open>2 ^ 1024\<close>.
\<close>

definition rnd :: "real \<Rightarrow> number" where
  "rnd x = (if x = 0 then Fin 0 else
     let e = quantum x; y = of_int (rne (x / 2 powi e)) * 2 powi e in
     if 2 ^ 1024 \<le> \<bar>y\<bar> then (if 0 < x then PInf else NInf) else Fin y)"

text \<open>The reals that are doubles are the ones rounding leaves alone.\<close>

definition is_double :: "real \<Rightarrow> bool" where
  "is_double x = (rnd x = Fin x)"

fun sign_of :: "number \<Rightarrow> real" where
  "sign_of NaN = 0"
| "sign_of PInf = 1"
| "sign_of NInf = - 1"
| "sign_of (Fin x) = sgn x"

text \<open>The operator \<open>+\<close> on two numbers.\<close>

fun fadd :: "number \<Rightarrow> number \<Rightarrow> number" where
  "fadd (Fin x) (Fin y) = rnd (x + y)"
| "fadd NaN b = NaN"
| "fadd a NaN = NaN"
| "fadd PInf NInf = NaN"
| "fadd NInf PInf = NaN"
| "fadd PInf b = PInf"
| "fadd NInf b = NInf"
| "fadd (Fin x) b = b"

text \<open>The operator \<open>-\<close> on two numbers.\<close>

fun fsub :: "number \<Rightarrow> number \<Rightarrow> number" where
  "fsub (Fin x) (Fin y) = rnd (x - y)"
| "fsub NaN b = NaN"
| "fsub a NaN = NaN"
| "fsub PInf PInf = NaN"
| "fsub NInf NInf = NaN"
| "fsub PInf b = PInf"
| "fsub NInf b = NInf"
| "fsub (Fin x) PInf = NInf"
| "fsub (Fin x) NInf = PInf"

text \<open>The operator \<open>*\<close>: an infinity times zero is NaN, otherwise the signs multiply.\<close>

fun fmul :: "number \<Rightarrow> number \<Rightarrow> number" where
  "fmul (Fin x) (Fin y) = rnd (x * y)"
| "fmul NaN b = NaN"
| "fmul a NaN = NaN"
| "fmul a b = (let s = sign_of a * sign_of b in
     if s = 0 then NaN else if 0 < s then PInf else NInf)"

text \<open>
  The operator \<open>/\<close>.  A zero divisor is taken as the positive zero; no function of the
  library reaches that equation.
\<close>

fun fdiv :: "number \<Rightarrow> number \<Rightarrow> number" where
  "fdiv (Fin x) (Fin y) =
     (if y = 0 then (if x = 0 then NaN else if 0 < x then PInf else NInf) else rnd (x / y))"
| "fdiv NaN b = NaN"
| "fdiv a NaN = NaN"
| "fdiv (Fin x) b = Fin 0"
| "fdiv a (Fin y) = (if 0 \<le> y then a else if a = PInf then NInf else PInf)"
| "fdiv a b = NaN"

text \<open>
  The operator \<open>%\<close>: the remainder of the division truncated towards zero.  It is exact,
  so no rounding takes place.
\<close>

definition trunc :: "real \<Rightarrow> real" where
  "trunc q = (if 0 \<le> q then of_int \<lfloor>q\<rfloor> else of_int \<lceil>q\<rceil>)"

fun frem :: "number \<Rightarrow> number \<Rightarrow> number" where
  "frem (Fin x) (Fin y) = (if y = 0 then NaN else Fin (x - y * trunc (x / y)))"
| "frem (Fin x) PInf = Fin x"
| "frem (Fin x) NInf = Fin x"
| "frem a b = NaN"

text \<open>\<open>Math.sqrt\<close>: the correctly rounded root; NaN below zero.\<close>

fun Math_sqrt :: "number \<Rightarrow> number" where
  "Math_sqrt (Fin x) = (if x < 0 then NaN else rnd (sqrt x))"
| "Math_sqrt PInf = PInf"
| "Math_sqrt a = NaN"

text \<open>The comparisons \<open><\<close>, \<open>===\<close> and \<open><=\<close>; each is false when an operand is NaN.\<close>

fun num_lt :: "number \<Rightarrow> number \<Rightarrow> bool" where
  "num_lt (Fin x) (Fin y) = (x < y)"
| "num_lt NaN b = False"
| "num_lt a NaN = False"
| "num_lt a NInf = False"
| "num_lt PInf b = False"
| "num_lt a b = True"

definition strict_eq :: "number \<Rightarrow> number \<Rightarrow> bool" where
  "strict_eq a b = (case a of NaN \<Rightarrow> False | _ \<Rightarrow> a = b)"

definition num_le :: "number \<Rightarrow> number \<Rightarrow> bool" where
  "num_le a b = (num_lt a b \<or> strict_eq a b)"

fun isNaN :: "number \<Rightarrow> bool" where
  "isNaN NaN = True"
| "isNaN a = False"

text \<open>\<open>Number.isInteger\<close>: finite with no fractional part.\<close>

fun Number_isInteger :: "number \<Rightarrow> bool" where
  "Number_isInteger (Fin x) = (of_int \<lfloor>x\<rfloor> = x)"
| "Number_isInteger a = False"

section \<open>Values, arrays and errors\<close>

text \<open>
  The arguments a caller can pass.  A missing argument is \<open>undefined\<close>.  An array is an
  object, so the value is a reference into a store of arrays; \<open>JObj\<close> is a reference to
  any other object (a plain object, a function, a boxed number).  Arrays are ordinary
  arrays with the built-in methods; they may have holes.
\<close>

datatype jsval =
  JUndefined | JNull | JBool bool | JNum number | JStr string | JBigInt int | JSymbol
  | JArr nat | JObj nat

text \<open>
  \<open>ToNumber\<close> where the library applies an arithmetic operator: to a number, which is
  itself, and in \<open>median\<close> to \<open>undefined\<close>, which is NaN.  No other value reaches an
  operator.
\<close>

fun js_num :: "jsval \<Rightarrow> number" where
  "js_num (JNum x) = x"
| "js_num v = NaN"

text \<open>
  The source throws \<open>Error\<close> objects that differ in their message only; one constructor
  per message, named as in the specification: \<open>Invalid number\<close>, \<open>Expected integer\<close>,
  \<open>Division by zero is not allowed\<close>, \<open>Square root of negative numbers is not
  supported\<close>, \<open>Factorial of negative numbers is not defined\<close>, \<open>Fibonacci sequence index
  cannot be negative\<close>, \<open>Input must be a non-empty array\<close>.  Two more exceptions come from
  the platform while a message is put together: \<open>TypeError\<close>, when the value to print is
  a symbol or an object without a primitive value, and \<open>CallerError\<close>, whatever a
  \<open>toString\<close> or \<open>valueOf\<close> method of the caller's object throws.
\<close>

datatype error = InvalidNumber | NotAnInteger | DivisionByZero | NegativeRadicand
  | NegativeFactorial | NegativeIndex | EmptyOrInvalidInput | TypeError | CallerError

text \<open>
  What the conversion of an object to a string does: it gives a string, or the object has
  no primitive value (an object without prototype, say), or a method of the object throws.
\<close>

datatype conversion = Converts | NoPrimitive | Throws

text \<open>
  The store.  \<open>cells\<close> holds the elements of the array at each address, \<open>None\<close> for a hole;
  \<open>to_string\<close> tells for the object at each address what its conversion to a string does;
  \<open>fresh\<close> is the next address to hand out, and the addresses below it are the arrays
  that exist.
\<close>

record heap =
  cells :: "nat \<Rightarrow> jsval option list"
  to_string :: "nat \<Rightarrow> conversion"
  fresh :: nat

definition empty_heap :: heap where
  "empty_heap = \<lparr>cells = (\<lambda>a. []), to_string = (\<lambda>p. Converts), fresh = 0\<rparr>"

text \<open>The elements an array has: what \<open>forEach\<close> and \<open>reduce\<close> visit, in order.\<close>

fun present :: "jsval option list \<Rightarrow> jsval list" where
  "present [] = []"
| "present (None # es) = present es"
| "present (Some v # es) = v # present es"

text \<open>Reading \<open>xs[i]\<close>: a hole and an index outside the array give \<open>undefined\<close>.\<close>

definition Get :: "jsval option list \<Rightarrow> nat \<Rightarrow> jsval" where
  "Get xs i = (if i < length xs then (case xs ! i of None \<Rightarrow> JUndefined | Some v \<Rightarrow> v)
               else JUndefined)"

fun first_error :: "error option list \<Rightarrow> error option" where
  "first_error [] = None"
| "first_error (None # es) = first_error es"
| "first_error (Some e # es) = Some e"

text \<open>
  What the conversion of a value to a string throws, if anything: the template literals
  of the error messages convert the offending value.  A symbol has no string.  An object
  answers for itself.  An array joins the strings of its elements, from left to right; a
  hole, \<open>undefined\<close> and \<open>null\<close> give the empty string, and so does an array met again
  inside itself (\<open>seen\<close> lists the arrays being joined).  Every other value has a string.
\<close>

function string_error :: "heap \<Rightarrow> nat list \<Rightarrow> jsval \<Rightarrow> error option" where
  "string_error h seen JSymbol = Some TypeError"
| "string_error h seen (JObj p) =
     (case to_string h p of Converts \<Rightarrow> None | NoPrimitive \<Rightarrow> Some TypeError
      | Throws \<Rightarrow> Some CallerError)"
| "string_error h seen (JArr a) =
     (if a < fresh h \<and> a \<notin> set seen
      then first_error (map (string_error h (a # seen)) (present (cells h a)))
      else None)"
| "string_error h seen JUndefined = None"
| "string_error h seen JNull = None"
| "string_error h seen (JBool b) = None"
| "string_error h seen (JNum x) = None"
| "string_error h seen (JStr s) = None"
| "string_error h seen (JBigInt i) = None"
  by pat_completeness auto
termination
proof (relation "measure (\<lambda>(h, seen, v). card ({..<fresh h} - set seen))")
  fix h :: heap and seen :: "nat list" and a :: nat and v :: jsval
  assume "a < fresh h \<and> a \<notin> set seen"
  then have "a \<in> {..<fresh h} - set seen" by simp
  then have "card ({..<fresh h} - set seen - {a}) < card ({..<fresh h} - set seen)"
    by (intro card_Diff1_less) simp_all
  moreover have "{..<fresh h} - set (a # seen) = {..<fresh h} - set seen - {a}" by auto
  ultimately show "((h, a # seen, v), (h, seen, JArr a))
      \<in> measure (\<lambda>(h, seen, v). card ({..<fresh h} - set seen))"
    by simp
qed simp

section \<open>Validation\<close>

text \<open>
  \<open>typeof value !== 'number' || isNaN(value)\<close> throws \<open>Invalid number: ${value}\<close>.  The
  message is put together before the \<open>Error\<close> exists, so where the conversion of the value
  throws, that exception leaves the function instead.
\<close>

fun validateNumber :: "heap \<Rightarrow> jsval \<Rightarrow> error + unit" where
  "validateNumber h (JNum x) = (if isNaN x then Inl InvalidNumber else Inr ())"
| "validateNumber h v =
     (case string_error h [] v of Some e \<Rightarrow> Inl e | None \<Rightarrow> Inl InvalidNumber)"

text \<open>\<open>values.forEach(validateNumber)\<close>: in order, stopping at the first throw.\<close>

fun forEach_validateNumber :: "heap \<Rightarrow> jsval list \<Rightarrow> error + unit" where
  "forEach_validateNumber h [] = Inr ()"
| "forEach_validateNumber h (v # vs) =
     (case validateNumber h v of Inl e \<Rightarrow> Inl e | Inr u \<Rightarrow> forEach_validateNumber h vs)"

definition validateNumbers :: "heap \<Rightarrow> jsval list \<Rightarrow> error + unit" where
  "validateNumbers h values = forEach_validateNumber h values"

text \<open>The message \<open>Expected integer, got: ${value}\<close> prints a number, which has a string.\<close>

definition validateInteger :: "heap \<Rightarrow> jsval \<Rightarrow> error + unit" where
  "validateInteger h v =
     (case validateNumber h v of Inl e \<Rightarrow> Inl e
      | Inr u \<Rightarrow> if \<not> Number_isInteger (js_num v) then Inl NotAnInteger else Inr ())"

section \<open>MathUtils\<close>

text \<open>
  The functions of the module, in the order of the source.  Each takes the store, which
  validation reads when it has to print an array or an object.  \<open>power\<close> hands its
  arguments to \<open>Math.pow\<close>, a function of the platform, taken here as a parameter.
\<close>

definition add :: "heap \<Rightarrow> jsval \<Rightarrow> jsval \<Rightarrow> error + number" where
  "add h a b = (case validateNumbers h [a, b] of Inl e \<Rightarrow> Inl e
     | Inr u \<Rightarrow> Inr (fadd (js_num a) (js_num b)))"


definition multiply :: "heap \<Rightarrow> jsval \<Rightarrow> jsval \<Rightarrow> error + number" where
  "multiply h a b = (case validateNumbers h [a, b] of Inl e \<Rightarrow> Inl e
     | Inr u \<Rightarrow> Inr (fmul (js_num a) (js_num b)))"

definition divide :: "heap \<Rightarrow> jsval \<Rightarrow> jsval \<Rightarrow> error + number" where
  "divide h a b = (case validateNumbers h [a, b] of Inl e \<Rightarrow> Inl e
     | Inr u \<Rightarrow>
         if strict_eq (js_num b) (Fin 0) then Inl DivisionByZero
         else Inr (fdiv (js_num a) (js_num b)))"


definition squareRoot :: "heap \<Rightarrow> jsval \<Rightarrow> error + number" where
  "squareRoot h v = (case validateNumber h v of Inl e \<Rightarrow> Inl e
     | Inr u \<Rightarrow>
         if num_lt (js_num v) (Fin 0) then Inl NegativeRadicand
         else Inr (Math_sqrt (js_num v)))"

text \<open>
  The three loops count with a double, so \<open>i++\<close> rounds.  A loop that does not come to
  its end has the value \<open>None\<close>.
\<close>

partial_function (option) factorial_loop :: "number \<Rightarrow> number \<Rightarrow> number \<Rightarrow> number option" where
  "factorial_loop n result i =
     (if num_le i n then factorial_loop n (fmul result i) (fadd i (Fin 1)) else Some result)"

definition factorial :: "heap \<Rightarrow> jsval \<Rightarrow> (error + number) option" where
  "factorial h v = (case validateInteger h v of Inl e \<Rightarrow> Some (Inl e)
     | Inr u \<Rightarrow>
         let n = js_num v in
         if num_lt n (Fin 0) then Some (Inl NegativeFactorial)
         else if strict_eq n (Fin 0) \<or> strict_eq n (Fin 1) then Some (Inr (Fin 1))
         else map_option Inr (factorial_loop n (Fin 1) (Fin 2)))"

partial_function (option) isPrime_loop :: "number \<Rightarrow> number \<Rightarrow> bool option" where
  "isPrime_loop n i =
     (if num_le i (Math_sqrt n)
      then (if strict_eq (frem n i) (Fin 0) then Some False else isPrime_loop n (fadd i (Fin 2)))
      else Some True)"

definition isPrime :: "heap \<Rightarrow> jsval \<Rightarrow> (error + bool) option" where
  "isPrime h v = (case validateInteger h v of Inl e \<Rightarrow> Some (Inl e)
     | Inr u \<Rightarrow>
         let n = js_num v in
         if num_lt n (Fin 2) then Some (Inr False)
         else if strict_eq n (Fin 2) then Some (Inr True)
         else if strict_eq (frem n (Fin 2)) (Fin 0) then Some (Inr False)
         else map_option Inr (isPrime_loop n (Fin 3)))"

partial_function (option) fibonacci_loop ::
    "number \<Rightarrow> number \<Rightarrow> number \<Rightarrow> number \<Rightarrow> number option" where
  "fibonacci_loop n a b i =
     (if num_le i n then fibonacci_loop n b (fadd a b) (fadd i (Fin 1)) else Some b)"

definition fibonacci :: "heap \<Rightarrow> jsval \<Rightarrow> (error + number) option" where
  "fibonacci h v = (case validateInteger h v of Inl e \<Rightarrow> Some (Inl e)
     | Inr u \<Rightarrow>
         let n = js_num v in
         if num_lt n (Fin 0) then Some (Inl NegativeIndex)
         else if strict_eq n (Fin 0) then Some (Inr (Fin 0))
         else if strict_eq n (Fin 1) then Some (Inr (Fin 1))
         else map_option Inr (fibonacci_loop n (Fin 0) (Fin 1) (Fin 2)))"

text \<open>
  \<open>numbers.forEach(validateNumber)\<close> and \<open>numbers.reduce((acc, curr) => acc + curr, 0)\<close>
  visit the elements the array has and pass over its holes, while \<open>numbers.length\<close>
  counts the holes too.
\<close>

definition reduce_sum :: "jsval list \<Rightarrow> number" where
  "reduce_sum numbers = foldl (\<lambda>acc curr. fadd acc (js_num curr)) (Fin 0) numbers"

definition average :: "heap \<Rightarrow> jsval \<Rightarrow> error + number" where
  "average h v = (case v of
       JArr a \<Rightarrow>
         let numbers = cells h a in
         if length numbers = 0 then Inl EmptyOrInvalidInput
         else (case forEach_validateNumber h (present numbers) of Inl e \<Rightarrow> Inl e
           | Inr u \<Rightarrow> Inr (fdiv (reduce_sum (present numbers)) (Fin (of_nat (length numbers)))))
     | _ \<Rightarrow> Inl EmptyOrInvalidInput)"

text \<open>
  \<open>[...numbers]\<close> allocates a new array of the same length; it holds the elements of
  \<open>numbers\<close>, and \<open>undefined\<close> where \<open>numbers\<close> has a hole.
\<close>

definition spread :: "heap \<Rightarrow> jsval option list \<Rightarrow> nat \<times> heap" where
  "spread h xs =
     (fresh h,
      h\<lparr>cells := (cells h)(fresh h := map (\<lambda>e. Some (case e of None \<Rightarrow> JUndefined | Some v \<Rightarrow> v)) xs),
        fresh := Suc (fresh h)\<rparr>)"

text \<open>
  \<open>sort\<close> rearranges the array it is called on, in place: the elements it has in the
  order of the comparison, its holes behind them.  The comparison of the standard puts
  \<open>undefined\<close> behind every other value without asking the comparison function
  \<open>(a, b) => a - b\<close>, and takes a NaN from that function as zero.  An element moves
  behind another exactly when the comparison is positive.  The sort of the standard is
  stable; insertion is one such sort.
\<close>

definition compareFn :: "jsval \<Rightarrow> jsval \<Rightarrow> number" where
  "compareFn a b = fsub (js_num a) (js_num b)"

definition SortCompare :: "jsval \<Rightarrow> jsval \<Rightarrow> number" where
  "SortCompare x y =
     (if x = JUndefined \<and> y = JUndefined then Fin 0
      else if x = JUndefined then Fin 1
      else if y = JUndefined then Fin (- 1)
      else (let v = compareFn x y in if isNaN v then Fin 0 else v))"

fun sort_insert :: "jsval \<Rightarrow> jsval list \<Rightarrow> jsval list" where
  "sort_insert x [] = [x]"
| "sort_insert x (y # ys) =
     (if num_lt (Fin 0) (SortCompare x y) then y # sort_insert x ys else x # y # ys)"

definition Array_sort :: "heap \<Rightarrow> nat \<Rightarrow> heap" where
  "Array_sort h a =
     h\<lparr>cells := (cells h)(a :=
        map Some (foldr sort_insert (present (cells h a)) [])
        @ replicate (length (cells h a) - length (present (cells h a))) None)\<rparr>"

text \<open>
  The length of an array is an integer below \<open>2 ^ 32\<close>, where the arithmetic of doubles is
  exact: \<open>Math.floor(sorted.length / 2)\<close> is \<open>length sorted div 2\<close>, and
  \<open>sorted.length % 2\<close> is \<open>length sorted mod 2\<close>.  When the length is even it is at least 2,
  so \<open>mid - 1\<close> is an index.  After validation the copy holds numbers and, for the holes
  of the argument, \<open>undefined\<close>; \<open>+\<close> on two such values adds their numbers.  On the way of
  an exception no store is returned.
\<close>

definition median :: "heap \<Rightarrow> jsval \<Rightarrow> error + jsval \<times> heap" where
  "median h v = (case v of
       JArr a \<Rightarrow>
         let numbers = cells h a in
         if length numbers = 0 then Inl EmptyOrInvalidInput
         else (case forEach_validateNumber h (present numbers) of Inl e \<Rightarrow> Inl e
           | Inr u \<Rightarrow>
               let (s, h1) = spread h numbers;
                   h2 = Array_sort h1 s;
                   sorted = cells h2 s;
                   mid = length sorted div 2
               in if length sorted mod 2 = 0
                  then Inr (JNum (fdiv (fadd (js_num (Get sorted (mid - 1))) (js_num (Get sorted mid)))
                                      (Fin 2)), h2)
                  else Inr (Get sorted mid, h2))
     | _ \<Rightarrow> Inl EmptyOrInvalidInput)"

section \<open>Notions of the specification\<close>

text \<open>The sequence \<open>F(0) = 0\<close>, \<open>F(1) = 1\<close>, \<open>F(k) = F(k - 1) + F(k - 2)\<close>.\<close>

fun fib :: "nat \<Rightarrow> int" where
  "fib 0 = 0"
| "fib (Suc 0) = 1"
| "fib (Suc (Suc k)) = fib (Suc k) + fib k"

text \<open>The same sequence from two neighbouring terms, to compute a term in linearly many steps.\<close>

fun fib_from :: "int \<Rightarrow> int \<Rightarrow> nat \<Rightarrow> int" where
  "fib_from a b 0 = a"
| "fib_from a b (Suc k) = fib_from b (a + b) k"

text \<open>The same recurrence with the addition of doubles, which rounds each sum.\<close>

fun fib_double :: "nat \<Rightarrow> number" where
  "fib_double 0 = Fin 0"
| "fib_double (Suc 0) = Fin 1"
| "fib_double (Suc (Suc k)) = fadd (fib_double k) (fib_double (Suc k))"

text \<open>
  The product \<open>2 * 3 * \<dots> * n\<close> taken from the left with the multiplication of doubles,
  which rounds each partial product.
\<close>

fun product_double :: "nat \<Rightarrow> number" where
  "product_double 0 = Fin 1"
| "product_double (Suc 0) = Fin 1"
| "product_double (Suc (Suc k)) = fmul (product_double (Suc k)) (Fin (of_nat (Suc (Suc k))))"

text \<open>Trial division by every candidate below \<open>n\<close>: the slow reference test.\<close>

definition trial_division :: "nat \<Rightarrow> bool" where
  "trial_division n = (2 \<le> n \<and> (\<forall>d \<in> {2..<n}. \<not> d dvd n))"

text \<open>
  What validation lets through: a value of type number other than NaN.  And what it can
  print: a value whose conversion to a string does not throw.
\<close>

definition accepted :: "jsval \<Rightarrow> bool" where
  "accepted v = (case v of JNum x \<Rightarrow> \<not> isNaN x | _ \<Rightarrow> False)"

definition printable :: "heap \<Rightarrow> jsval \<Rightarrow> bool" where
  "printable h v = (string_error h [] v = None)"

section \<open>Rounding\<close>

lemma two_powr_powi: "(2::real) powr (of_int k) = 2 powi k"
  by (rule powr_real_of_int') simp_all

lemma floor_log2_eq:
  assumes "2 powi k \<le> x" "x < 2 powi (k + 1)"
  shows "\<lfloor>log 2 x\<rfloor> = k"
proof -
  have "(0::real) < 2 powi k" by simp
  then have pos: "0 < x" using assms(1) by linarith
  have a: "2 powr (of_int k) \<le> x" using assms(1) by (simp only: two_powr_powi)
  have "x < 2 powr (of_int (k + 1))" using assms(2) by (simp only: two_powr_powi)
  then have b: "x < 2 powr (of_int k + 1)" by simp
  show ?thesis using pos a b by (simp add: floor_log_eq_powr_iff)
qed

lemma floor_log2_bounds:
  assumes "0 < x"
  shows "2 powi \<lfloor>log 2 x\<rfloor> \<le> x \<and> x < 2 powi (\<lfloor>log 2 x\<rfloor> + 1)"
proof -
  define k where "k = \<lfloor>log 2 x\<rfloor>"
  have "2 powr (of_int k) \<le> x \<and> x < 2 powr (of_int k + 1)"
    using floor_log_eq_powr_iff[of x 2 k] assms k_def by simp
  then have "2 powr (of_int k) \<le> x \<and> x < 2 powr (of_int (k + 1))" by simp
  then show ?thesis unfolding k_def[symmetric] by (simp only: two_powr_powi)
qed

lemma rne_of_int: "rne (of_int n) = n"
  by (simp add: rne_def)

lemma rne_le: "q \<le> of_int n \<Longrightarrow> rne q \<le> n"
  unfolding rne_def Let_def by (auto split: if_splits) linarith+

lemma rne_ge: "of_int n \<le> q \<Longrightarrow> n \<le> rne q"
  unfolding rne_def Let_def by (auto split: if_splits) linarith+

lemma num_le_Fin [simp]: "num_le (Fin a) (Fin b) = (a \<le> b)"
  by (auto simp: num_le_def strict_eq_def)

lemma num_le_NInf [simp]: "num_le NInf (Fin b)" "num_le (Fin a) PInf"
  by (simp_all add: num_le_def)

lemma quantum_eq:
  assumes "2 powi k \<le> \<bar>x\<bar>" "\<bar>x\<bar> < 2 powi (k + 1)"
  shows "quantum x = max (k - 52) (- 1074)"
  using floor_log2_eq[OF assms] by (simp add: quantum_def)

lemma quantum_ge: "- 1074 \<le> quantum x"
  by (simp add: quantum_def)

lemma quantum_bounds:
  assumes "x \<noteq> 0" "- 1074 < quantum x"
  shows "2 powi (quantum x + 52) \<le> \<bar>x\<bar>"
proof -
  have "0 < \<bar>x\<bar>" using assms by simp
  from floor_log2_bounds[OF this] have "2 powi \<lfloor>log 2 \<bar>x\<bar>\<rfloor> \<le> \<bar>x\<bar>" by simp
  moreover have "quantum x + 52 = \<lfloor>log 2 \<bar>x\<bar>\<rfloor>" using assms(2) by (simp add: quantum_def max_def split: if_splits)
  ultimately show ?thesis by simp
qed

lemma quantum_upper:
  assumes "x \<noteq> 0"
  shows "\<bar>x\<bar> < 2 powi (quantum x + 53)"
proof -
  have "0 < \<bar>x\<bar>" using assms by simp
  from floor_log2_bounds[OF this] have "\<bar>x\<bar> < 2 powi (\<lfloor>log 2 \<bar>x\<bar>\<rfloor> + 1)" by simp
  also have "\<dots> \<le> 2 powi (quantum x + 53)"
    by (rule power_int_increasing) (simp_all add: quantum_def)
  finally show ?thesis .
qed

lemma scale_int:
  assumes "e \<le> E"
  shows "of_int M * 2 powi E / 2 powi e = (of_int (M * 2 ^ nat (E - e)) :: real)"
proof -
  have "(2::real) powi E / 2 powi e = 2 powi (E - e)" by (simp add: power_int_diff)
  also have "\<dots> = 2 ^ nat (E - e)" using assms by (simp add: power_int_def)
  finally have "(2::real) powi E / 2 powi e = 2 ^ nat (E - e)" .
  then have "of_int M * ((2::real) powi E / 2 powi e) = of_int M * 2 ^ nat (E - e)" by simp
  then show ?thesis by simp
qed

lemma rnd_upper:
  assumes r: "r = of_int M * 2 powi E" and M: "\<bar>M\<bar> < 2 ^ 53" and E: "- 1074 \<le> E" "E \<le> 971"
    and le: "x \<le> r"
  shows "num_le (rnd x) (Fin r)"
proof (cases "x = 0")
  case True
  then show ?thesis using le by (simp add: rnd_def)
next
  case False
  define e where "e = quantum x"
  define y where "y = of_int (rne (x / 2 powi e)) * (2::real) powi e"
  have pe: "(0::real) < 2 powi e" by simp
  have rabs: "\<bar>r\<bar> < 2 powi (E + 53)"
  proof -
    have "\<bar>r\<bar> = of_int \<bar>M\<bar> * 2 powi E" by (simp add: r abs_mult)
    also have "\<dots> < 2 ^ 53 * 2 powi E" using M by (intro mult_strict_right_mono) (simp_all flip: of_int_less_iff[where 'a=real])
    also have "\<dots> = 2 powi (E + 53)" by (simp add: power_int_add)
    finally show ?thesis .
  qed
  have yr: "y \<le> r"
  proof (cases "e \<le> E")
    case True
    have "x / 2 powi e \<le> r / 2 powi e" by (rule divide_right_mono[OF le]) simp
    also have "\<dots> = of_int (M * 2 ^ nat (E - e))" unfolding r by (rule scale_int[OF True])
    finally have "rne (x / 2 powi e) \<le> M * 2 ^ nat (E - e)" by (rule rne_le)
    then have "of_int (rne (x / 2 powi e)) \<le> (of_int (M * 2 ^ nat (E - e)) :: real)" by (simp only: of_int_le_iff)
    then have "y \<le> of_int (M * 2 ^ nat (E - e)) * 2 powi e" unfolding y_def using pe by (simp only: mult_le_cancel_right_pos)
    also have "\<dots> = r" using scale_int[OF True, of M, symmetric] unfolding r by simp
    finally show ?thesis .
  next
    case False
    then have eE: "E + 1 \<le> e" by simp
    then have "- 1074 < quantum x" using E by (simp add: e_def)
    from quantum_bounds[OF \<open>x \<noteq> 0\<close> this] have xb: "2 powi (e + 52) \<le> \<bar>x\<bar>" by (simp add: e_def)
    have "(2::real) powi (E + 53) \<le> 2 powi (e + 52)" using eE by (intro power_int_increasing) simp_all
    then have rb: "\<bar>r\<bar> < 2 powi (e + 52)" using rabs by linarith
    then have rx: "\<bar>r\<bar> < \<bar>x\<bar>" using xb by linarith
    then have xneg: "x \<le> - (2 powi (e + 52))" using le xb by linarith
    have "x / 2 powi e \<le> (- (2 powi (e + 52))) / 2 powi e" by (rule divide_right_mono[OF xneg]) simp
    also have "\<dots> = of_int (- (2 ^ 52))" by (simp add: power_int_add)
    finally have "rne (x / 2 powi e) \<le> - (2 ^ 52)" by (rule rne_le)
    then have "of_int (rne (x / 2 powi e)) \<le> (of_int (- (2 ^ 52)) :: real)" by (simp only: of_int_le_iff)
    then have "y \<le> of_int (- (2 ^ 52)) * 2 powi e" unfolding y_def using pe by (simp only: mult_le_cancel_right_pos)
    also have "\<dots> = - (2 powi (e + 52))" by (simp add: power_int_add)
    finally show ?thesis using rb by linarith
  qed
  have r1024: "r < 2 ^ 1024"
  proof -
    have "(2::real) powi (E + 53) \<le> 2 powi 1024" using E by (intro power_int_increasing) simp_all
    then show ?thesis using rabs by simp
  qed
  have ypos: "0 < x \<Longrightarrow> 0 \<le> y"
  proof -
    assume "0 < x"
    then have "of_int 0 \<le> x / 2 powi e" using pe by simp
    then have "0 \<le> rne (x / 2 powi e)" by (rule rne_ge)
    then show "0 \<le> y" unfolding y_def using pe by simp
  qed
  have rnd_eq: "rnd x = (if 2 ^ 1024 \<le> \<bar>y\<bar> then (if 0 < x then PInf else NInf) else Fin y)"
    using \<open>x \<noteq> 0\<close> by (simp add: rnd_def Let_def e_def y_def)
  show ?thesis
  proof (cases "2 ^ 1024 \<le> \<bar>y\<bar>")
    case True
    then have "\<not> 0 < x" using ypos yr r1024 by fastforce
    then show ?thesis using True rnd_eq by simp
  next
    case False
    then show ?thesis using rnd_eq yr by simp
  qed
qed

lemma rne_minus: "rne (- q) = - rne q"
proof (cases "q = of_int \<lfloor>q\<rfloor>")
  case True
  then obtain n where "q = of_int n" ..
  then show ?thesis using rne_of_int[of n] rne_of_int[of "- n"] by simp
next
  case False
  then have c: "\<lceil>q\<rceil> = \<lfloor>q\<rfloor> + 1" by (simp add: ceiling_altdef)
  have f: "\<lfloor>- q\<rfloor> = - \<lfloor>q\<rfloor> - 1" using c by (simp add: ceiling_def)
  show ?thesis unfolding rne_def Let_def f by (auto split: if_splits)
qed

lemma quantum_minus: "quantum (- x) = quantum x"
  by (simp add: quantum_def)

lemma rnd_minus:
  "rnd (- x) = (case rnd x of Fin y \<Rightarrow> Fin (- y) | PInf \<Rightarrow> NInf | NInf \<Rightarrow> PInf | NaN \<Rightarrow> NaN)"
  by (simp add: rnd_def Let_def quantum_minus rne_minus)

lemma rnd_lower:
  assumes r: "r = of_int M * 2 powi E" and M: "\<bar>M\<bar> < 2 ^ 53" and E: "- 1074 \<le> E" "E \<le> 971"
    and le: "r \<le> x"
  shows "num_le (Fin r) (rnd x)"
proof -
  have "num_le (rnd (- x)) (Fin (- r))"
    by (rule rnd_upper[where M = "- M" and E = E]) (use assms in simp_all)
  then show ?thesis
    by (cases "rnd x") (auto simp: rnd_minus num_le_def strict_eq_def)
qed

lemma rnd_exact:
  assumes r: "r = of_int M * 2 powi E" and M: "\<bar>M\<bar> < 2 ^ 53" and E: "- 1074 \<le> E" "E \<le> 971"
  shows "rnd r = Fin r"
proof -
  have a: "num_le (rnd r) (Fin r)" by (rule rnd_upper[OF assms]) simp
  have b: "num_le (Fin r) (rnd r)" by (rule rnd_lower[OF assms]) simp
  show ?thesis using a b by (cases "rnd r") (auto simp: num_le_def strict_eq_def)
qed

lemma is_double_int: "\<bar>n\<bar> \<le> 2 ^ 53 \<Longrightarrow> is_double (of_int n)"
proof -
  assume a: "\<bar>n\<bar> \<le> 2 ^ 53"
  show ?thesis
  proof (cases "\<bar>n\<bar> = 2 ^ 53")
    case True
    then have "n = 2 ^ 53 \<or> n = - (2 ^ 53)" by linarith
    then have "real_of_int n = of_int (n div 2) * 2 powi 1" "\<bar>n div 2\<bar> < 2 ^ 53" by auto
    then show ?thesis unfolding is_double_def by (intro rnd_exact[where M = "n div 2" and E = 1]) simp_all
  next
    case False
    then have "real_of_int n = of_int n * 2 powi 0" "\<bar>n\<bar> < 2 ^ 53" using a by auto
    then show ?thesis unfolding is_double_def by (intro rnd_exact[where M = n and E = 0]) simp_all
  qed
qed

subsection \<open>The doubles, and rounding to a nearest one\<close>

lemma rne_abs_le:
  assumes "\<bar>q\<bar> \<le> of_int N"
  shows "\<bar>rne q\<bar> \<le> N"
proof -
  have "q \<le> of_int N" "of_int (- N) \<le> q" using assms by simp_all
  then have "rne q \<le> N" "- N \<le> rne q" by (simp_all only: rne_le rne_ge)
  then show ?thesis by simp
qed

lemma rne_abs_ge:
  assumes "of_int N \<le> \<bar>q\<bar>" "0 \<le> N"
  shows "N \<le> \<bar>rne q\<bar>"
proof (cases "0 \<le> q")
  case True
  then have "of_int N \<le> q" using assms by simp
  then have "N \<le> rne q" by (rule rne_ge)
  then show ?thesis by simp
next
  case False
  then have "q \<le> of_int (- N)" using assms by simp
  then have "rne q \<le> - N" by (rule rne_le)
  then show ?thesis by simp
qed

lemma rnd_is_double:
  assumes "rnd x = Fin y"
  shows "\<exists>M E. y = of_int M * 2 powi E \<and> \<bar>M\<bar> < 2 ^ 53 \<and> - 1074 \<le> E \<and> E \<le> 971"
proof (cases "x = 0")
  case True
  then have "y = of_int 0 * 2 powi 0" using assms by (simp add: rnd_def)
  then show ?thesis by (intro exI[of _ 0] exI[of _ "0::int"]) simp
next
  case False
  define e where "e = quantum x"
  define m where "m = rne (x / 2 powi e)"
  have pe: "(0::real) < 2 powi e" by simp
  have y: "y = of_int m * 2 powi e" and fin: "\<bar>of_int m * (2::real) powi e\<bar> < 2 ^ 1024"
    using assms False unfolding rnd_def Let_def e_def[symmetric] m_def[symmetric]
    by (auto split: if_splits)
  have e1: "- 1074 \<le> e" using quantum_ge[of x] by (simp add: e_def)
  have "\<bar>x\<bar> < 2 powi (e + 53)" using quantum_upper[OF False] by (simp add: e_def)
  then have "\<bar>x\<bar> / 2 powi e < 2 powi (e + 53) / 2 powi e" using pe by (simp add: divide_strict_right_mono)
  then have "\<bar>x / 2 powi e\<bar> \<le> of_int (2 ^ 53)" by (simp add: power_int_add)
  then have m53: "\<bar>m\<bar> \<le> 2 ^ 53" unfolding m_def by (rule rne_abs_le)
  have ay: "of_int \<bar>m\<bar> * (2::real) powi e < 2 powi 1024" using fin by (simp add: abs_mult)
  show ?thesis
  proof (cases "\<bar>m\<bar> = 2 ^ 53")
    case True
    then have "(2::real) powi (53 + e) < 2 powi 1024" using ay by (simp add: power_int_add)
    then have "53 + e < 1024" by (rule power_int_le_imp_less_exp[rotated]) simp_all
    then have "e + 1 \<le> 971" by simp
    moreover have "m = 2 ^ 53 \<or> m = - (2 ^ 53)" using True by linarith
    then have "y = of_int (m div 2) * 2 powi (e + 1)"
      unfolding y by (auto simp: power_int_add)
    moreover have "\<bar>m div 2\<bar> < 2 ^ 53" using True by auto
    ultimately show ?thesis using e1 by (intro exI[of _ "m div 2"] exI[of _ "e + 1"]) simp
  next
    case ne: False
    then have lt: "\<bar>m\<bar> < 2 ^ 53" using m53 by simp
    have "e \<le> 971"
    proof (rule ccontr)
      assume "\<not> e \<le> 971"
      then have big: "972 \<le> e" by simp
      then have "- 1074 < quantum x" by (simp add: e_def)
      from quantum_bounds[OF False this] have "2 powi (e + 52) \<le> \<bar>x\<bar>" by (simp add: e_def)
      then have "2 powi (e + 52) / 2 powi e \<le> \<bar>x\<bar> / 2 powi e" using pe by (simp add: divide_right_mono)
      then have "of_int (2 ^ 52) \<le> \<bar>x / 2 powi e\<bar>" by (simp add: power_int_add)
      then have "2 ^ 52 \<le> \<bar>m\<bar>" unfolding m_def by (rule rne_abs_ge) simp
      then have "(2::real) ^ 52 \<le> of_int \<bar>m\<bar>" by (metis of_int_le_iff of_int_numeral of_int_power)
      then have "(2::real) ^ 52 * 2 powi e \<le> of_int \<bar>m\<bar> * 2 powi e"
        using pe by (simp only: mult_le_cancel_right_pos)
      moreover have "(2::real) powi (52 + e) = 2 ^ 52 * 2 powi e" by (simp add: power_int_add)
      ultimately have "(2::real) powi (52 + e) < 2 powi 1024" using ay by (simp only: le_less_trans)
      then have "52 + e < 1024" by (rule power_int_le_imp_less_exp[rotated]) simp_all
      then show False using big by simp
    qed
    then show ?thesis using y lt e1 by blast
  qed
qed

lemma is_double_iff:
  "is_double x \<longleftrightarrow> (\<exists>M E. x = of_int M * 2 powi E \<and> \<bar>M\<bar> < 2 ^ 53 \<and> - 1074 \<le> E \<and> E \<le> 971)"
  unfolding is_double_def using rnd_is_double[of x x] rnd_exact[of x] by blast

lemma rnd_idem: "rnd x = Fin y \<Longrightarrow> is_double y"
  unfolding is_double_iff by (rule rnd_is_double)

lemma rne_nearest: "\<bar>of_int (rne q) - q\<bar> \<le> \<bar>of_int N - q\<bar>"
proof -
  define f where "f = \<lfloor>q\<rfloor>"
  define d where "d = q - of_int f"
  have d: "0 \<le> d" "d < 1" unfolding d_def f_def by linarith+
  have q: "q = of_int f + d" by (simp add: d_def)
  have N: "N \<le> f \<or> f + 1 \<le> N" by linarith
  have far: "min d (1 - d) \<le> \<bar>of_int N - q\<bar>"
  proof (cases "N \<le> f")
    case True
    then have "real_of_int N \<le> of_int f" by simp
    then show ?thesis unfolding q using d by linarith
  next
    case False
    then have "f + 1 \<le> N" using N by simp
    then have "real_of_int (f + 1) \<le> of_int N" by (simp only: of_int_le_iff)
    then show ?thesis unfolding q using d by simp
  qed
  have "rne q = (if d < 1 / 2 then f else if 1 / 2 < d then f + 1 else if even f then f else f + 1)"
    unfolding rne_def Let_def f_def[symmetric] d_def[symmetric] ..
  then have "rne q = f \<and> d \<le> 1 / 2 \<or> rne q = f + 1 \<and> 1 / 2 \<le> d"
    by (auto split: if_splits)
  then have near: "\<bar>of_int (rne q) - q\<bar> = min d (1 - d)"
    using d by (auto simp: q)
  show ?thesis using far near by simp
qed

lemma rnd_nearest:
  assumes r: "rnd x = Fin y" and s: "is_double s"
  shows "\<bar>y - x\<bar> \<le> \<bar>s - x\<bar>"
proof (cases "x = 0")
  case True
  then show ?thesis using r by (simp add: rnd_def)
next
  case False
  define e where "e = quantum x"
  define q where "q = x / 2 powi e"
  have pe: "(0::real) < 2 powi e" by simp
  have x: "x = q * 2 powi e" by (simp add: q_def)
  have y: "y = of_int (rne q) * 2 powi e"
    using r False unfolding rnd_def Let_def e_def[symmetric] q_def[symmetric]
    by (auto split: if_splits)
  have scaled: "\<bar>y - x\<bar> \<le> \<bar>of_int N * 2 powi e - x\<bar>" for N
  proof -
    have "\<bar>y - x\<bar> = \<bar>of_int (rne q) - q\<bar> * 2 powi e"
      unfolding y x by (simp add: abs_mult flip: left_diff_distrib)
    also have "\<dots> \<le> \<bar>of_int N - q\<bar> * 2 powi e"
      using rne_nearest[of q N] pe by (simp only: mult_le_cancel_right_pos)
    also have "\<dots> = \<bar>of_int N * 2 powi e - x\<bar>"
      unfolding x by (simp add: abs_mult flip: left_diff_distrib)
    finally show ?thesis .
  qed
  obtain M E where ME: "s = of_int M * 2 powi E" "\<bar>M\<bar> < 2 ^ 53" "- 1074 \<le> E" "E \<le> 971"
    using s unfolding is_double_iff by blast
  show ?thesis
  proof (cases "e \<le> E")
    case True
    have "s = of_int (M * 2 ^ nat (E - e)) * 2 powi e"
      using scale_int[OF True, of M] unfolding ME(1) by (simp add: field_simps)
    then show ?thesis using scaled[of "M * 2 ^ nat (E - e)"] by simp
  next
    case False
    then have eE: "E + 1 \<le> e" by simp
    then have "- 1074 < quantum x" using ME(3) by (simp add: e_def)
    from quantum_bounds[OF \<open>x \<noteq> 0\<close> this] have xb: "2 powi (e + 52) \<le> \<bar>x\<bar>" by (simp add: e_def)
    have "\<bar>s\<bar> = of_int \<bar>M\<bar> * 2 powi E" by (simp add: ME(1) abs_mult)
    also have "\<dots> < 2 ^ 53 * 2 powi E"
      using ME(2) by (intro mult_strict_right_mono) (simp_all flip: of_int_less_iff[where 'a=real])
    also have "\<dots> = 2 powi (E + 53)" by (simp add: power_int_add)
    also have "\<dots> \<le> 2 powi (e + 52)" using eE by (intro power_int_increasing) simp_all
    finally have sb: "\<bar>s\<bar> < 2 powi (e + 52)" .
    have g: "(2::real) powi (e + 52) = of_int (2 ^ 52) * 2 powi e" by (simp add: power_int_add)
    show ?thesis
    proof (cases "0 < x")
      case True
      have "\<bar>y - x\<bar> \<le> \<bar>2 powi (e + 52) - x\<bar>" unfolding g by (rule scaled)
      then show ?thesis using True xb sb by linarith
    next
      case neg: False
      have "\<bar>y - x\<bar> \<le> \<bar>of_int (- (2 ^ 52)) * 2 powi e - x\<bar>" by (rule scaled)
      also have "of_int (- (2 ^ 52)) * 2 powi e = - ((2::real) powi (e + 52))" unfolding g by simp
      finally show ?thesis using neg xb sb by linarith
    qed
  qed
qed

section \<open>Validation and arithmetic\<close>

lemma rnd_not_NaN: "rnd x \<noteq> NaN"
  by (simp add: rnd_def Let_def)

lemma rnd_of_int: "\<bar>n\<bar> \<le> 2 ^ 53 \<Longrightarrow> rnd (of_int n) = Fin (of_int n)"
  using is_double_int[of n] by (simp add: is_double_def)

lemmas rnd_small = rnd_of_int[of 0, simplified] rnd_of_int[of 1, simplified]
  rnd_of_int[of "- 1", simplified]
  rnd_of_int[of "numeral k", simplified] rnd_of_int[of "- numeral k", simplified] for k

lemma is_double_bound: "is_double x \<Longrightarrow> \<bar>x\<bar> < 2 ^ 1024"
  unfolding is_double_def rnd_def Let_def by (auto split: if_splits)

lemma rnd_nonneg: 
  assumes "0 \<le> x" shows "num_le (Fin 0) (rnd x)"
  by (rule rnd_lower[where M = 0 and E = 0]) (use assms in simp_all)

lemma rnd_sqrt_finite:
  assumes "0 \<le> x" "x < 2 ^ 1024"
  shows "\<exists>r. rnd (sqrt x) = Fin r \<and> 0 \<le> r"
proof -
  have e: "(2::real) ^ 1024 = (2 ^ 512)\<^sup>2" by (simp only: power_mult [symmetric]) simp
  have "sqrt x < sqrt (2 ^ 1024)" using assms(2) by (simp only: real_sqrt_less_iff)
  also have "\<dots> = \<bar>2 ^ 512\<bar>" unfolding e by (rule real_sqrt_abs)
  finally have "sqrt x \<le> 2 ^ 512" by (simp only: abs_power2 abs_numeral abs_of_nonneg[OF zero_le_power[OF zero_le_numeral]] less_imp_le)
  then have u: "num_le (rnd (sqrt x)) (Fin (2 ^ 512))"
    by (intro rnd_upper[where M = 1 and E = 512]) simp_all
  have l: "num_le (Fin 0) (rnd (sqrt x))" using assms by (intro rnd_nonneg) simp
  show ?thesis using u l by (cases "rnd (sqrt x)") (auto simp: num_le_def strict_eq_def)
qed

text \<open>
  C6: on two finite numbers \<open>divide\<close> throws \<open>Division by zero\<close> exactly when the divisor
  is zero (compared with \<open>===\<close>, no tolerance), and otherwise returns the quotient, which
  for doubles is the real quotient rounded: when finite, a double that no other double
  beats in distance to the real quotient.
\<close>

theorem divide_spec:
  assumes "is_double x" and "is_double y"
  shows "(divide h (JNum (Fin x)) (JNum (Fin y)) = Inl DivisionByZero \<longleftrightarrow> y = 0) \<and>
         (y \<noteq> 0 \<longrightarrow> divide h (JNum (Fin x)) (JNum (Fin y)) = Inr (rnd (x / y)) \<and>
            (\<forall>r. rnd (x / y) = Fin r \<longrightarrow>
               is_double r \<and> (\<forall>s. is_double s \<longrightarrow> \<bar>r - x / y\<bar> \<le> \<bar>s - x / y\<bar>)))"
  using rnd_idem[of "x / y"] rnd_nearest[of "x / y"]
  by (simp add: divide_def validateNumbers_def strict_eq_def)

theorem divide_spec_witness:
  "is_double 5 \<and> is_double 0 \<and> is_double 6 \<and> is_double 3 \<and>
   divide empty_heap (JNum (Fin 5)) (JNum (Fin 0)) = Inl DivisionByZero \<and>
   divide empty_heap (JNum (Fin 6)) (JNum (Fin 3)) = Inr (Fin 2)"
proof -
  have d: "is_double 5" "is_double 0" "is_double 6" "is_double 3"
    by (simp_all add: is_double_def rnd_small)
  show ?thesis
    using d divide_spec[OF d(1) d(2)] divide_spec[OF d(3) d(4)] by (simp add: rnd_small)
qed

text \<open>
  C7: on a finite number \<open>squareRoot\<close> throws \<open>Square root of negative numbers\<close> exactly
  when the argument is below zero.  Otherwise it returns the square root rounded: a finite
  double that is not negative and that no other double beats in distance to the real
  root, hence the root itself whenever the root is a double.
\<close>

theorem squareRoot_spec:
  assumes "is_double x"
  shows "(squareRoot h (JNum (Fin x)) = Inl NegativeRadicand \<longleftrightarrow> x < 0) \<and>
         (0 \<le> x \<longrightarrow> squareRoot h (JNum (Fin x)) = Inr (rnd (sqrt x)) \<and>
            (\<exists>r. rnd (sqrt x) = Fin r \<and> 0 \<le> r \<and> is_double r \<and>
               (\<forall>s. is_double s \<longrightarrow> \<bar>r - sqrt x\<bar> \<le> \<bar>s - sqrt x\<bar>)) \<and>
            (\<forall>r. is_double r \<and> 0 \<le> r \<and> r * r = x \<longrightarrow> rnd (sqrt x) = Fin r))"
proof -
  have a: "squareRoot h (JNum (Fin x)) = (if x < 0 then Inl NegativeRadicand else Inr (rnd (sqrt x)))"
    by (simp add: squareRoot_def)
  have b: "\<exists>r. rnd (sqrt x) = Fin r \<and> 0 \<le> r \<and> is_double r \<and>
               (\<forall>s. is_double s \<longrightarrow> \<bar>r - sqrt x\<bar> \<le> \<bar>s - sqrt x\<bar>)" if nonneg: "0 \<le> x"
  proof -
    have "x < 2 ^ 1024" using is_double_bound[OF assms] by (rule order_le_less_trans[OF abs_ge_self])
    from rnd_sqrt_finite[OF nonneg this] obtain r where r: "rnd (sqrt x) = Fin r" "0 \<le> r"
      by blast
    then show ?thesis using rnd_idem[OF r(1)] rnd_nearest[OF r(1)] by blast
  qed
  have c: "is_double r \<and> 0 \<le> r \<and> r * r = x \<longrightarrow> rnd (sqrt x) = Fin r" for r
    by (auto simp: is_double_def real_sqrt_mult_self)
  show ?thesis using a b c by auto
qed

theorem squareRoot_spec_witness:
  "is_double 9 \<and> is_double (- 1) \<and> squareRoot empty_heap (JNum (Fin (- 1))) = Inl NegativeRadicand \<and>
   squareRoot empty_heap (JNum (Fin 9)) = Inr (Fin 3)"
proof -
  have d: "is_double 9" "is_double (- 1)" "is_double 3"
    by (simp_all add: is_double_def rnd_small)
  have "rnd (sqrt 9) = Fin 3" using squareRoot_spec[OF d(1)] d(3) by simp
  then show ?thesis using d squareRoot_spec[OF d(1)] squareRoot_spec[OF d(2)] by simp
qed

text \<open>
  C9: on finite numbers \<open>add\<close> and \<open>multiply\<close> return, with the operands exchanged, results
  that \<open>===\<close> holds equal (neither is NaN).
\<close>

theorem add_multiply_commute:
  assumes "is_double x" and "is_double y"
  shows "(\<exists>r s. add h (JNum (Fin x)) (JNum (Fin y)) = Inr r \<and> add h (JNum (Fin y)) (JNum (Fin x)) = Inr s
            \<and> strict_eq r s) \<and>
         (\<exists>r s. multiply h (JNum (Fin x)) (JNum (Fin y)) = Inr r
            \<and> multiply h (JNum (Fin y)) (JNum (Fin x)) = Inr s \<and> strict_eq r s)"
proof -
  have "strict_eq (rnd z) (rnd z)" for z
    using rnd_not_NaN[of z] by (cases "rnd z") (simp_all add: strict_eq_def)
  then show ?thesis
    by (simp add: add_def multiply_def validateNumbers_def add.commute mult.commute)
qed

theorem add_multiply_commute_witness:
  "is_double 2 \<and> is_double 3 \<and>
   add empty_heap (JNum (Fin 2)) (JNum (Fin 3)) = Inr (Fin 5) \<and> add empty_heap (JNum (Fin 3)) (JNum (Fin 2)) = Inr (Fin 5) \<and>
   multiply empty_heap (JNum (Fin 2)) (JNum (Fin 3)) = Inr (Fin 6) \<and>
   multiply empty_heap (JNum (Fin 3)) (JNum (Fin 2)) = Inr (Fin 6)"
proof -
  have d: "is_double 2" "is_double 3"
    by (simp_all add: is_double_def rnd_small)
  show ?thesis
    using d add_multiply_commute[OF d]
    by (simp add: add_def multiply_def validateNumbers_def rnd_small)
qed

text \<open>What validation does with each value, and with the arguments of an operation.\<close>

lemma first_error_foreign:
  "first_error es = Some e \<Longrightarrow> \<forall>x \<in> set es. x = None \<or> x = Some TypeError \<or> x = Some CallerError
   \<Longrightarrow> e = TypeError \<or> e = CallerError"
  by (induction es rule: first_error.induct) auto

lemma string_error_foreign:
  "string_error h seen v = Some e \<Longrightarrow> e = TypeError \<or> e = CallerError"
proof (induction h seen v arbitrary: e rule: string_error.induct)
  case (3 h seen a)
  then have f: "first_error (map (string_error h (a # seen)) (present (cells h a))) = Some e"
    and c: "a < fresh h \<and> a \<notin> set seen"
    by (auto split: if_splits)
  have "\<forall>x \<in> set (map (string_error h (a # seen)) (present (cells h a))).
          x = None \<or> x = Some TypeError \<or> x = Some CallerError"
  proof
    fix x assume "x \<in> set (map (string_error h (a # seen)) (present (cells h a)))"
    then obtain w where w: "w \<in> set (present (cells h a))" "x = string_error h (a # seen) w"
      by auto
    show "x = None \<or> x = Some TypeError \<or> x = Some CallerError"
      using "3.IH"[OF c w(1)] w(2) by (cases x) auto
  qed
  from first_error_foreign[OF f this] show ?case .
qed (auto split: conversion.splits)

lemma validateNumber_error:
  "validateNumber h v = Inl e \<Longrightarrow> e = InvalidNumber \<or> e = TypeError \<or> e = CallerError"
  using string_error_foreign[of h "[]" v]
  by (cases v) (auto split: option.splits if_splits)

lemma validateNumber_accepted: "validateNumber h v = Inr () \<longleftrightarrow> accepted v"
  by (cases v) (auto simp: accepted_def split: option.splits)

lemma validateNumber_rejected:
  "\<not> accepted v \<Longrightarrow> printable h v \<Longrightarrow> validateNumber h v = Inl InvalidNumber"
  by (cases v) (auto simp: accepted_def printable_def)

lemma validateNumber_Invalid:
  "validateNumber h v = Inl InvalidNumber \<Longrightarrow> \<not> accepted v"
  using validateNumber_accepted[of h v] by auto

lemma validateNumbers_pair:
  "validateNumbers h [a, b] =
     (case validateNumber h a of Inl e \<Rightarrow> Inl e | Inr u \<Rightarrow> validateNumber h b)"
  by (simp add: validateNumbers_def split: sum.splits)

lemma validateNumbers_first:
  assumes "validateNumber h a = Inl e \<or> validateNumber h a = Inr () \<and> validateNumber h b = Inl e"
  shows "validateNumbers h [a, b] = Inl e"
  using assms by (auto simp: validateNumbers_pair)

lemma forEach_validateNumber_ok:
  "(\<forall>v \<in> set vs. validateNumber h v = Inr ()) \<Longrightarrow> forEach_validateNumber h vs = Inr ()"
  by (induction vs) simp_all





text \<open>A symbol cannot be printed: the exception is the platform's, not \<open>Invalid number\<close>.\<close>

lemma validateNumber_symbol:
  "validateNumber h JSymbol = Inl TypeError \<and> add h JSymbol (JNum (Fin 1)) = Inl TypeError"
  by (simp add: add_def validateNumbers_def)

text \<open>
  C10, as the code has it.  \<open>divide\<close> validates before it looks at the divisor: when
  \<open>Invalid number\<close> is what \<open>validateNumber\<close> throws at the first operand it does not accept
  (an operand that is NaN or not a number, and that it can print), \<open>divide\<close> throws
  \<open>Invalid number\<close>, also when the divisor is zero.  When \<open>divide\<close> throws \<open>Division by
  zero\<close>, both operands are numbers other than NaN, the infinities included, and the
  divisor is zero.
\<close>

theorem divide_validates_first:
  "(\<not> accepted a \<and> printable h a \<or> accepted a \<and> \<not> accepted b \<and> printable h b \<longrightarrow>
      divide h a b = Inl InvalidNumber) \<and>
   (divide h a b = Inl DivisionByZero \<longleftrightarrow> accepted a \<and> b = JNum (Fin 0)) \<and>
   (divide h a b = Inl DivisionByZero \<longrightarrow> accepted a \<and> accepted b) \<and>
   (accepted a \<longleftrightarrow> (\<exists>x. a = JNum x \<and> x \<noteq> NaN))"
proof -
  have acc: "accepted a \<longleftrightarrow> (\<exists>x. a = JNum x \<and> x \<noteq> NaN)"
  proof (cases a)
    case (JNum x)
    then show ?thesis by (cases x) (simp_all add: accepted_def)
  qed (simp_all add: accepted_def)
  have inv: "divide h a b = Inl InvalidNumber"
    if "\<not> accepted a \<and> printable h a \<or> accepted a \<and> \<not> accepted b \<and> printable h b"
  proof -
    have "validateNumber h a = Inl InvalidNumber \<or>
          validateNumber h a = Inr () \<and> validateNumber h b = Inl InvalidNumber"
      using that validateNumber_rejected[of a h] validateNumber_rejected[of b h]
        validateNumber_accepted[of h a] by blast
    from validateNumbers_first[OF this] show ?thesis by (simp add: divide_def)
  qed
  have zero: "divide h a b = Inl DivisionByZero \<longleftrightarrow> accepted a \<and> b = JNum (Fin 0)"
  proof
    assume d: "divide h a b = Inl DivisionByZero"
    have "validateNumbers h [a, b] \<noteq> Inl DivisionByZero"
      using validateNumber_error[of h a DivisionByZero] validateNumber_error[of h b DivisionByZero]
      by (auto simp: validateNumbers_pair split: sum.splits)
    then have v: "validateNumbers h [a, b] = Inr ()"
      using d by (cases "validateNumbers h [a, b]") (auto simp: divide_def split: if_splits)
    then have ab: "validateNumber h a = Inr ()" "validateNumber h b = Inr ()"
      by (auto simp: validateNumbers_pair split: sum.splits)
    have "strict_eq (js_num b) (Fin 0)" using d v by (simp add: divide_def split: if_splits)
    then have "js_num b = Fin 0" by (cases "js_num b") (simp_all add: strict_eq_def)
    moreover have "accepted b" using ab(2) by (simp add: validateNumber_accepted)
    then have "b = JNum (js_num b)" by (cases b) (simp_all add: accepted_def)
    ultimately show "accepted a \<and> b = JNum (Fin 0)"
      using ab(1) by (simp add: validateNumber_accepted)
  next
    assume "accepted a \<and> b = JNum (Fin 0)"
    then show "divide h a b = Inl DivisionByZero"
      using validateNumber_accepted[of h a]
      by (simp add: divide_def validateNumbers_pair strict_eq_def)
  qed
  have both: "accepted a \<and> accepted b" if "divide h a b = Inl DivisionByZero"
    using that zero by (auto simp: accepted_def)
  show ?thesis using acc inv zero both by blast
qed

theorem divide_validates_first_witness:
  "divide empty_heap (JNum NaN) (JNum (Fin 0)) = Inl InvalidNumber \<and>
   divide empty_heap (JNum (Fin 5)) (JStr ''0'') = Inl InvalidNumber \<and>
   divide empty_heap (JNum (Fin 5)) (JNum (Fin 0)) = Inl DivisionByZero"
  using divide_validates_first[of "JNum NaN" empty_heap "JNum (Fin 0)"]
    divide_validates_first[of "JNum (Fin 5)" empty_heap "JStr ''0''"]
    divide_validates_first[of "JNum (Fin 5)" empty_heap "JNum (Fin 0)"]
  by (simp add: accepted_def printable_def)

text \<open>
  C10, as the specification words it, fails: infinity is not a Number of the
  specification, and yet \<open>divide\<close> applied to it and zero throws \<open>Division by zero\<close>, not
  \<open>Invalid number\<close>.
\<close>

theorem divide_infinity_counterexample:
  "divide empty_heap (JNum PInf) (JNum (Fin 0)) = Inl DivisionByZero"
  by (simp add: divide_def validateNumbers_def strict_eq_def)

section \<open>Fibonacci\<close>

lemma fadd_int:
  "\<bar>a + b\<bar> \<le> 2 ^ 53 \<Longrightarrow> fadd (Fin (of_int a)) (Fin (of_int b)) = Fin (of_int (a + b))"
  using rnd_of_int[of "a + b"] by simp

lemma fadd_one: "i < 2 ^ 53 \<Longrightarrow> fadd (Fin (of_nat i)) (Fin 1) = Fin (of_nat (Suc i))"
  using fadd_int[of "int i" 1] by (simp add: add.commute)

lemma fib_from_fib: "fib_from (fib j) (fib (Suc j)) k = fib (j + k)"
proof (induction k arbitrary: j)
  case (Suc k)
  show ?case using Suc[of "Suc j"] by (simp add: add.commute)
qed simp

lemma fib_nonneg: "0 \<le> fib k"
  by (induction k rule: fib.induct) simp_all

lemma fib_mono_Suc: "fib k \<le> fib (Suc k)"
  using fib_nonneg[of "k - 1"] by (cases k) simp_all

lemma fib_mono: "j \<le> k \<Longrightarrow> fib j \<le> fib k"
  by (induction k) (auto simp: le_Suc_eq intro: order_trans[OF _ fib_mono_Suc])

lemma fib_77_78_79:
  "fib 77 = 5527939700884757" "fib 78 = 8944394323791464" "fib 79 = 14472334024676221"
proof -
  have "fib_from 0 1 77 = 5527939700884757" "fib_from 0 1 78 = 8944394323791464" 
    "fib_from 0 1 79 = 14472334024676221" by code_simp+
  then show "fib 77 = 5527939700884757" "fib 78 = 8944394323791464" "fib 79 = 14472334024676221"
    using fib_from_fib[of 0 77] fib_from_fib[of 0 78] fib_from_fib[of 0 79] by simp_all
qed

lemma fib_double_exact: "k \<le> 78 \<Longrightarrow> fib_double k = Fin (of_int (fib k))"
proof (induction k rule: fib.induct)
  case (3 k)
  have "fib (Suc (Suc k)) \<le> fib 78" using 3(3) by (rule fib_mono)
  moreover have "0 \<le> fib (Suc (Suc k))" by (rule fib_nonneg)
  ultimately have "\<bar>fib k + fib (Suc k)\<bar> \<le> 2 ^ 53" by (simp add: fib_77_78_79)
  from fadd_int[OF this] show ?case using 3 by (simp add: add.commute)
qed simp_all

lemma fibonacci_loop_run:
  assumes "n < 2 ^ 53" "2 \<le> i" "i \<le> Suc n"
  shows "fibonacci_loop (Fin (of_nat n)) (fib_double (i - 2)) (fib_double (i - 1)) (Fin (of_nat i))
         = Some (fib_double n)"
  using assms
proof (induction "Suc n - i" arbitrary: i)
  case 0
  then have "i = Suc n" by simp
  then show ?case by (subst fibonacci_loop.simps) simp
next
  case (Suc d)
  then have le: "i \<le> n" and i53: "i < 2 ^ 53" by simp_all
  define j where "j = i - 2"
  have j: "i = Suc (Suc j)" using Suc.prems(2) by (simp add: j_def)
  have step: "fadd (fib_double (i - 2)) (fib_double (i - 1)) = fib_double (Suc i - 1)"
    by (simp add: j)
  have "fibonacci_loop (Fin (of_nat n)) (fib_double (Suc i - 2)) (fib_double (Suc i - 1)) (Fin (of_nat (Suc i)))
        = Some (fib_double n)"
    using Suc by (intro Suc.hyps(1)) simp_all
  then show ?case
    using le unfolding step[symmetric] fadd_one[OF i53, symmetric]
    by (subst fibonacci_loop.simps) (simp add: j)
qed

lemma rnd_eval:
  assumes "2 powi k \<le> \<bar>x\<bar>" "\<bar>x\<bar> < 2 powi (k + 1)"
  shows "rnd x = (let e = max (k - 52) (- 1074); y = of_int (rne (x / 2 powi e)) * 2 powi e in
           if 2 ^ 1024 \<le> \<bar>y\<bar> then (if 0 < x then PInf else NInf) else Fin y)"
proof -
  have "(0::real) < 2 powi k" by simp
  then have "0 < \<bar>x\<bar>" using assms(1) by linarith
  then have "x \<noteq> 0" by simp
  then show ?thesis by (simp add: rnd_def quantum_eq[OF assms])
qed

lemma rnd_fib_79: "rnd 14472334024676221 = Fin 14472334024676220"
  by (subst rnd_eval[where k = 53]) (simp_all add: rne_def)

lemma validateInteger_int: "validateInteger h (JNum (Fin (of_int n))) = Inr ()"
  by (simp add: validateInteger_def)

lemma fibonacci_run:
  assumes "0 \<le> n" "n < 2 ^ 53"
  shows "fibonacci h (JNum (Fin (of_int n))) = Some (Inr (fib_double (nat n)))"
proof -
  consider "n = 0" | "n = 1" | "2 \<le> n" using assms(1) by linarith
  then show ?thesis
  proof cases
    case 3
    define m where "m = nat n"
    have m: "real_of_int n = of_nat m" "m < 2 ^ 53" "2 \<le> m" using 3 assms by (simp_all add: m_def)
    have "fibonacci_loop (Fin (of_nat m)) (fib_double (2 - 2)) (fib_double (2 - 1)) (Fin (of_nat 2))
          = Some (fib_double m)"
      by (rule fibonacci_loop_run) (use m in simp_all)
    then have "fibonacci_loop (Fin (of_nat m)) (Fin 0) (Fin 1) (Fin 2) = Some (fib_double m)"
      by simp
    then show ?thesis using m(3)
      unfolding m(1) m_def[symmetric] by (simp add: fibonacci_def validateInteger_def strict_eq_def )
  qed (simp_all add: fibonacci_def validateInteger_def strict_eq_def)
qed

text \<open>
  C4, as the code has it.  For an integer \<open>n\<close>, \<open>fibonacci\<close> throws \<open>Fibonacci sequence
  index cannot be negative\<close> when \<open>n < 0\<close>.  For \<open>0 \<le> n < 2 ^ 53\<close> it returns the \<open>n\<close>-th
  term of the recurrence computed with the addition of doubles, and for \<open>0 \<le> n \<le> 78\<close> that
  term is the Fibonacci number \<open>F(n)\<close> itself.
\<close>

theorem fibonacci_spec:
  assumes "is_double (of_int n)"
  shows "(n < 0 \<longrightarrow> fibonacci h (JNum (Fin (of_int n))) = Some (Inl NegativeIndex)) \<and>
         (0 \<le> n \<and> n < 2 ^ 53 \<longrightarrow>
            fibonacci h (JNum (Fin (of_int n))) = Some (Inr (fib_double (nat n)))) \<and>
         (0 \<le> n \<and> n \<le> 78 \<longrightarrow>
            fibonacci h (JNum (Fin (of_int n))) = Some (Inr (Fin (of_int (fib (nat n))))))"
proof -
  have a: "n < 0 \<Longrightarrow> fibonacci h (JNum (Fin (of_int n))) = Some (Inl NegativeIndex)"
    by (simp add: fibonacci_def validateInteger_def)
  have c: "fibonacci h (JNum (Fin (of_int n))) = Some (Inr (Fin (of_int (fib (nat n)))))"
    if "0 \<le> n" "n \<le> 78"
  proof -
    have "n < 2 ^ 53" using that by simp
    moreover have "nat n \<le> 78" using that by simp
    ultimately show ?thesis using that(1) by (simp add: fibonacci_run fib_double_exact)
  qed
  show ?thesis using a c fibonacci_run by blast
qed

theorem fibonacci_spec_witness:
  "is_double (of_int 6) \<and> is_double (of_int (- 1)) \<and>
   fibonacci empty_heap (JNum (Fin (of_int (- 1)))) = Some (Inl NegativeIndex) \<and>
   fibonacci empty_heap (JNum (Fin (of_int 6))) = Some (Inr (Fin 8))"
proof -
  have d: "is_double (of_int 6)" "is_double (of_int (- 1))"
    by (simp_all add: is_double_def rnd_small)
  have "fib (nat 6) = 8" by (simp add: eval_nat_numeral)
  then show ?thesis
    using d fibonacci_spec[OF d(1), THEN conjunct2, THEN conjunct2]
      fibonacci_spec[OF d(2), THEN conjunct1] by simp
qed

text \<open>
  C4, as the specification words it, fails at \<open>n = 79\<close>: \<open>F(79)\<close> is odd and lies above
  \<open>2 ^ 53\<close>, where the doubles are the even integers, so the last addition rounds.
\<close>

theorem fibonacci_79_counterexample:
  "fibonacci empty_heap (JNum (Fin 79)) = Some (Inr (Fin 14472334024676220)) \<and> fib 79 = 14472334024676221"
proof -
  have "fib_double (Suc (Suc 77)) = fadd (fib_double 77) (fib_double (Suc 77))"
    by (rule fib_double.simps)
  then have "fib_double 79 = fadd (fib_double 77) (fib_double 78)"
    by simp
  also have "\<dots> = rnd (of_int (fib 77) + of_int (fib 78))"
    by (simp add: fib_double_exact)
  also have "\<dots> = Fin 14472334024676220"
    by (simp add: fib_77_78_79 rnd_fib_79)
  finally have "fib_double 79 = Fin 14472334024676220" .
  then show ?thesis using fibonacci_run[of 79] by (simp add: fib_77_78_79)
qed

section \<open>Factorial\<close>

lemma rnd_fact_small:
  assumes "k \<le> 22"
  shows "rnd (fact k) = Fin (fact k)"
proof -
  consider "k \<le> 18" | "k = 19" | "k = 20" | "k = 21" | "k = 22" using assms by linarith
  then show ?thesis
  proof cases
    case 1
    then have "(fact k :: int) \<le> fact 18" by (rule fact_mono)
    also have "\<dots> \<le> 2 ^ 53" by (simp add: fact_numeral)
    finally have "\<bar>fact k :: int\<bar> \<le> 2 ^ 53" by simp
    from rnd_of_int[OF this] show ?thesis by simp
  next
    case 2
    show ?thesis unfolding 2
      by (rule rnd_exact[where M = 1856156927625 and E = 16]) (simp_all add: fact_numeral)
  next
    case 3
    show ?thesis unfolding 3
      by (rule rnd_exact[where M = 9280784638125 and E = 18]) (simp_all add: fact_numeral)
  next
    case 4
    show ?thesis unfolding 4
      by (rule rnd_exact[where M = 194896477400625 and E = 18]) (simp_all add: fact_numeral)
  next
    case 5
    show ?thesis unfolding 5
      by (rule rnd_exact[where M = 2143861251406875 and E = 19]) (simp_all add: fact_numeral)
  qed
qed

lemma product_double_exact: "k \<le> 22 \<Longrightarrow> product_double k = Fin (fact k)"
proof (induction k rule: product_double.induct)
  case (3 k)
  have "fmul (Fin (fact (Suc k))) (Fin (of_nat (Suc (Suc k)))) = rnd (fact (Suc (Suc k)))"
    by (simp add: mult.commute)
  then show ?case using 3 rnd_fact_small[of "Suc (Suc k)"] by simp
qed simp_all

lemma factorial_loop_run:
  assumes "n < 2 ^ 53" "2 \<le> i" "i \<le> Suc n"
  shows "factorial_loop (Fin (of_nat n)) (product_double (i - 1)) (Fin (of_nat i))
         = Some (product_double n)"
  using assms
proof (induction "Suc n - i" arbitrary: i)
  case 0
  then have "i = Suc n" by simp
  then show ?case by (subst factorial_loop.simps) simp
next
  case (Suc d)
  then have le: "i \<le> n" and i53: "i < 2 ^ 53" by simp_all
  define j where "j = i - 2"
  have j: "i = Suc (Suc j)" using Suc.prems(2) by (simp add: j_def)
  have step: "fmul (product_double (i - 1)) (Fin (of_nat i)) = product_double (Suc i - 1)"
    by (simp add: j)
  have "factorial_loop (Fin (of_nat n)) (product_double (Suc i - 1)) (Fin (of_nat (Suc i)))
        = Some (product_double n)"
    using Suc by (intro Suc.hyps(1)) simp_all
  then show ?case
    using le unfolding step[symmetric] fadd_one[OF i53, symmetric]
    by (subst factorial_loop.simps) simp
qed

lemma factorial_run:
  assumes "0 \<le> n" "n < 2 ^ 53"
  shows "factorial h (JNum (Fin (of_int n))) = Some (Inr (product_double (nat n)))"
proof -
  consider "n = 0" | "n = 1" | "2 \<le> n" using assms(1) by linarith
  then show ?thesis
  proof cases
    case 3
    define m where "m = nat n"
    have m: "real_of_int n = of_nat m" "m < 2 ^ 53" "2 \<le> m" using 3 assms by (simp_all add: m_def)
    have "factorial_loop (Fin (of_nat m)) (product_double (2 - 1)) (Fin (of_nat 2))
          = Some (product_double m)"
      by (rule factorial_loop_run) (use m in simp_all)
    then have "factorial_loop (Fin (of_nat m)) (Fin 1) (Fin 2) = Some (product_double m)"
      by simp
    then show ?thesis using m(3)
      unfolding m(1) m_def[symmetric] by (simp add: factorial_def validateInteger_def strict_eq_def)
  qed (simp_all add: factorial_def validateInteger_def strict_eq_def)
qed

lemma rnd_fact_23: "rnd 25852016738884976640000 = Fin 25852016738884978212864"
  by (subst rnd_eval[where k = 74]) (simp_all add: rne_def)

text \<open>
  C3, as the code has it.  For an integer \<open>n\<close>, \<open>factorial\<close> throws \<open>Factorial of negative
  numbers is not defined\<close> when \<open>n < 0\<close> and returns 1 when \<open>n\<close> is 0 or 1.  For
  \<open>2 \<le> n < 2 ^ 53\<close> it returns the product \<open>2 * 3 * \<dots> * n\<close> taken from the left with the
  multiplication of doubles, and for \<open>2 \<le> n \<le> 22\<close> that product is \<open>n!\<close> itself.
\<close>

theorem factorial_spec:
  assumes "is_double (of_int n)"
  shows "(n < 0 \<longrightarrow> factorial h (JNum (Fin (of_int n))) = Some (Inl NegativeFactorial)) \<and>
         (n = 0 \<or> n = 1 \<longrightarrow> factorial h (JNum (Fin (of_int n))) = Some (Inr (Fin 1))) \<and>
         (2 \<le> n \<and> n < 2 ^ 53 \<longrightarrow>
            factorial h (JNum (Fin (of_int n))) = Some (Inr (product_double (nat n)))) \<and>
         (2 \<le> n \<and> n \<le> 22 \<longrightarrow>
            factorial h (JNum (Fin (of_int n))) = Some (Inr (Fin (fact (nat n)))))"
proof -
  have a: "n < 0 \<Longrightarrow> factorial h (JNum (Fin (of_int n))) = Some (Inl NegativeFactorial)"
    by (simp add: factorial_def validateInteger_def)
  have b: "n = 0 \<or> n = 1 \<Longrightarrow> factorial h (JNum (Fin (of_int n))) = Some (Inr (Fin 1))"
    by (auto simp: factorial_def validateInteger_def strict_eq_def)
  have c: "factorial h (JNum (Fin (of_int n))) = Some (Inr (Fin (fact (nat n))))"
    if "2 \<le> n" "n \<le> 22"
  proof -
    have "n < 2 ^ 53" "0 \<le> n" using that by simp_all
    moreover have "nat n \<le> 22" using that by simp
    ultimately show ?thesis by (simp add: factorial_run product_double_exact)
  qed
  have d: "factorial h (JNum (Fin (of_int n))) = Some (Inr (product_double (nat n)))"
    if "2 \<le> n" "n < 2 ^ 53"
    using that by (intro factorial_run) simp_all
  show ?thesis using a b c d by blast
qed

theorem factorial_spec_witness:
  "is_double (of_int 5) \<and> is_double (of_int (- 1)) \<and> is_double (of_int 0) \<and>
   factorial empty_heap (JNum (Fin (of_int (- 1)))) = Some (Inl NegativeFactorial) \<and>
   factorial empty_heap (JNum (Fin (of_int 0))) = Some (Inr (Fin 1)) \<and>
   factorial empty_heap (JNum (Fin (of_int 5))) = Some (Inr (Fin 120))"
proof -
  have d: "is_double (of_int 5)" "is_double (of_int (- 1))" "is_double (of_int 0)"
    by (simp_all add: is_double_def rnd_small)
  have "fact (nat 5) = (120::real)" by (simp add: fact_numeral)
  then show ?thesis
    using d factorial_spec[OF d(1), THEN conjunct2, THEN conjunct2, THEN conjunct2]
      factorial_spec[OF d(2), THEN conjunct1]
      factorial_spec[OF d(3), THEN conjunct2, THEN conjunct1] by simp
qed

text \<open>
  C3, as the specification words it, fails at \<open>n = 23\<close>: \<open>23!\<close> is no double, and the
  last multiplication rounds to the double beside it.
\<close>

theorem factorial_23_counterexample:
  "factorial empty_heap (JNum (Fin 23)) = Some (Inr (Fin 25852016738884978212864)) \<and>
   fact 23 = (25852016738884976640000 :: real)"
proof -
  have "product_double (Suc (Suc 21)) = fmul (product_double (Suc 21)) (Fin (of_nat (Suc (Suc 21))))"
    by (rule product_double.simps)
  then have "product_double 23 = fmul (product_double 22) (Fin 23)"
    by simp
  also have "\<dots> = rnd (fact 22 * 23)"
    by (simp add: product_double_exact)
  also have "\<dots> = Fin 25852016738884978212864"
    by (simp add: fact_numeral rnd_fact_23)
  finally have "product_double 23 = Fin 25852016738884978212864" .
  then show ?thesis using factorial_run[of 23] by (simp add: fact_numeral)
qed

section \<open>Primality\<close>

lemma frem_int:
  assumes "0 \<le> a" "0 < b"
  shows "frem (Fin (of_int a)) (Fin (of_int b)) = Fin (of_int (a mod b))"
proof -
  have q: "0 \<le> real_of_int a / of_int b" using assms by simp
  have "trunc (of_int a / of_int b) = of_int (a div b)"
    using q by (simp add: trunc_def floor_divide_of_int_eq)
  moreover have "real_of_int a - of_int b * of_int (a div b) = of_int (a mod b)"
    by (simp add: minus_mult_div_eq_mod flip: of_int_mult of_int_diff)
  ultimately show ?thesis using assms(2) by simp
qed

lemma odd_double_small:
  assumes "is_double (of_int n)" "odd n"
  shows "\<bar>n\<bar> < 2 ^ 53"
proof -
  define x where "x = real_of_int n"
  define e where "e = quantum x"
  have x0: "x \<noteq> 0" using assms(2) by (auto simp: x_def)
  have eq: "x = of_int (rne (x / 2 powi e)) * 2 powi e"
    using assms(1) x0 unfolding is_double_def rnd_def Let_def x_def[symmetric] e_def[symmetric]
    by (auto split: if_splits)
  have "e \<le> 0"
  proof (rule ccontr)
    assume "\<not> e \<le> 0"
    then have "(2::real) powi e = of_int (2 ^ nat e)" by (simp add: power_int_def)
    then have "real_of_int n = of_int (rne (x / 2 powi e) * 2 ^ nat e)"
      using eq by (simp add: x_def)
    then have "n = rne (x / 2 powi e) * 2 ^ nat e" by (simp only: of_int_eq_iff)
    moreover have "even ((2::int) ^ nat e)" using \<open>\<not> e \<le> 0\<close> by simp
    ultimately show False using assms(2) by simp
  qed
  have "\<bar>x\<bar> < 2 powi (e + 53)" using quantum_upper[OF x0] by (simp add: e_def)
  also have "\<dots> \<le> 2 powi 53" using \<open>e \<le> 0\<close> by (intro power_int_increasing) simp_all
  finally have "real_of_int \<bar>n\<bar> < of_int (2 ^ 53)" by (simp add: x_def)
  then show ?thesis by (simp only: of_int_less_iff)
qed

lemma sqrt_lower:
  assumes "0 \<le> d" "d * d \<le> n" "n < 2 ^ 53"
  shows "num_le (Fin (of_int d)) (rnd (sqrt (of_int n)))"
proof -
  have "d \<le> d * d" using assms(1) by (cases "d = 0") (simp_all add: mult_le_cancel_left1)
  then have a: "\<bar>d\<bar> < 2 ^ 53" using assms by simp
  have "(real_of_int d)\<^sup>2 \<le> of_int n"
    using assms(2) by (simp add: power2_eq_square flip: of_int_mult)
  then have b: "real_of_int d \<le> sqrt (of_int n)" by (rule real_le_rsqrt)
  show ?thesis by (rule rnd_lower[where M = d and E = 0]) (use a b in simp_all)
qed

lemma sqrt_upper:
  assumes "3 \<le> n" "n < 2 ^ 53"
  shows "num_le (rnd (sqrt (of_int n))) (Fin (of_int (n - 1)))"
proof -
  have a: "\<bar>n - 1\<bar> < 2 ^ 53" using assms by simp
  have "0 \<le> n * (n - 3)" using assms(1) by simp
  then have "n \<le> (n - 1) * (n - 1)" by (simp add: algebra_simps)
  then have "real_of_int n \<le> (of_int (n - 1))\<^sup>2"
    by (simp only: power2_eq_square flip: of_int_mult)
  then have b: "sqrt (of_int n) \<le> of_int (n - 1)"
    using assms(1) by (intro real_le_lsqrt) simp_all
  show ?thesis by (rule rnd_upper[where M = "n - 1" and E = 0]) (use a b in simp_all)
qed

lemma num_le_trans_Fin: "a \<le> b \<Longrightarrow> num_le (Fin b) s \<Longrightarrow> num_le (Fin a) s"
  by (cases s) (auto simp: num_le_def strict_eq_def)

lemma num_le_Fin_trans: "num_le (Fin a) s \<Longrightarrow> num_le s (Fin b) \<Longrightarrow> a \<le> b"
  by (cases s) (auto simp: num_le_def strict_eq_def)

lemma small_cofactor:
  fixes n i :: int
  assumes n: "odd n" and i: "3 \<le> i" "i < n" "i dvd n"
  shows "\<exists>d. odd d \<and> 3 \<le> d \<and> d * d \<le> n \<and> d dvd n"
proof -
  obtain k where k: "n = i * k" using i(3) by (auto simp: dvd_def)
  have oi: "odd i" and ok: "odd k" using n k by simp_all
  have "1 < k"
  proof (rule ccontr)
    assume "\<not> 1 < k"
    then have "i * k \<le> i * 1" using i(1) by (intro mult_left_mono) simp_all
    then show False using i(2) k by simp
  qed
  then have k3: "3 \<le> k" using ok by presburger
  show ?thesis
  proof (cases "i \<le> k")
    case True
    then have "i * i \<le> i * k" using i(1) by (intro mult_left_mono) simp_all
    then show ?thesis using oi i k by auto
  next
    case False
    then have "k * k \<le> i * k" using k3 by (intro mult_right_mono) simp_all
    then show ?thesis using ok k3 k by auto
  qed
qed

lemma isPrime_loop_run:
  assumes n: "odd n" "3 \<le> n" "n < 2 ^ 53"
    and i: "odd i" "3 \<le> i"
    and inv: "\<forall>d. odd d \<and> 3 \<le> d \<and> d < i \<longrightarrow> \<not> d dvd n"
  shows "isPrime_loop (Fin (of_int n)) (Fin (of_int i))
         = Some (\<forall>d. odd d \<and> 3 \<le> d \<and> d * d \<le> n \<longrightarrow> \<not> d dvd n)"
  using i inv
proof (induction "nat (n + 2 - i)" arbitrary: i rule: less_induct)
  case less
  define s where "s = rnd (sqrt (of_int n))"
  define P where "P = (\<forall>d. odd d \<and> 3 \<le> d \<and> d * d \<le> n \<longrightarrow> \<not> d dvd n)"
  have sq: "Math_sqrt (Fin (of_int n)) = s" using n(2) by (simp add: s_def)
  have ipos: "0 < i" "0 \<le> n" using less.prems(2) n(2) by simp_all
  have rem: "frem (Fin (of_int n)) (Fin (of_int i)) = Fin (of_int (n mod i))"
    using ipos by (intro frem_int) simp_all
  have unfold: "isPrime_loop (Fin (of_int n)) (Fin (of_int i)) =
      (if num_le (Fin (of_int i)) s
       then (if strict_eq (Fin (of_int (n mod i))) (Fin 0) then Some False
             else isPrime_loop (Fin (of_int n)) (fadd (Fin (of_int i)) (Fin 2)))
       else Some True)"
    by (subst isPrime_loop.simps) (simp only: sq rem)
  show ?case unfolding P_def[symmetric]
  proof (cases "num_le (Fin (of_int i)) s")
    case False
    have "\<not> d dvd n" if d: "odd d" "3 \<le> d" "d * d \<le> n" for d
    proof -
      have "num_le (Fin (of_int d)) s" unfolding s_def using d n(3) by (intro sqrt_lower) simp_all
      then have "d < i" using False num_le_trans_Fin[of "of_int i" "of_int d" s] by fastforce
      then show ?thesis using less.prems(3) d by blast
    qed
    then have P unfolding P_def by blast
    then show "isPrime_loop (Fin (of_int n)) (Fin (of_int i)) = Some P"
      using False by (simp only: unfold if_False)
  next
    case True
    have "real_of_int i \<le> of_int (n - 1)"
      using True sqrt_upper[OF n(2,3)] unfolding s_def by (rule num_le_Fin_trans)
    then have in1: "i \<le> n - 1" by (simp only: of_int_le_iff)
    show "isPrime_loop (Fin (of_int n)) (Fin (of_int i)) = Some P"
    proof (cases "n mod i = 0")
      case z0: True
      then have "i dvd n" by (simp add: dvd_eq_mod_eq_0)
      then have "\<exists>d. odd d \<and> 3 \<le> d \<and> d * d \<le> n \<and> d dvd n"
        using n(1) less.prems(2) in1 by (intro small_cofactor[of n i]) simp_all
      then have "\<not> P" unfolding P_def by blast
      moreover have "strict_eq (Fin (of_int (n mod i))) (Fin 0)"
        using z0 by (simp add: strict_eq_def)
      ultimately show ?thesis using True by (simp only: unfold if_True)
    next
      case nz: False
      have step: "fadd (Fin (of_int i)) (Fin 2) = Fin (of_int (i + 2))"
        using fadd_int[of i 2] in1 n(3) ipos by simp
      have inv': "\<forall>d. odd d \<and> 3 \<le> d \<and> d < i + 2 \<longrightarrow> \<not> d dvd n"
      proof (intro allI impI)
        fix d assume d: "odd d \<and> 3 \<le> d \<and> d < i + 2"
        then have "d < i \<or> d = i" using less.prems(1) by presburger
        then show "\<not> d dvd n" using less.prems(3) d nz by (auto simp: dvd_eq_mod_eq_0)
      qed
      have "isPrime_loop (Fin (of_int n)) (Fin (of_int (i + 2))) = Some P"
        unfolding P_def using less.prems(1,2) in1 inv' by (intro less.hyps) simp_all
      moreover have "\<not> strict_eq (Fin (of_int (n mod i))) (Fin 0)"
        using nz by (simp add: strict_eq_def)
      ultimately show ?thesis using True by (simp only: unfold step if_True if_False)
    qed
  qed
qed

lemma trial_division_prime:
  "trial_division n \<longleftrightarrow> 1 < n \<and> (\<forall>d. d dvd n \<longrightarrow> d = 1 \<or> d = n)"
proof
  assume t: "trial_division n"
  then have n: "2 \<le> n" by (simp add: trial_division_def)
  have "d = 1 \<or> d = n" if "d dvd n" for d
  proof -
    have "d \<le> n" "d \<noteq> 0" using that n by (auto intro: dvd_imp_le intro!: Nat.gr0I)
    then show ?thesis using t that by (fastforce simp: trial_division_def)
  qed
  then show "1 < n \<and> (\<forall>d. d dvd n \<longrightarrow> d = 1 \<or> d = n)" using n by auto
next
  assume "1 < n \<and> (\<forall>d. d dvd n \<longrightarrow> d = 1 \<or> d = n)"
  then show "trial_division n" by (fastforce simp: trial_division_def)
qed

lemma trial_division_int:
  assumes "0 \<le> n"
  shows "trial_division (nat n) \<longleftrightarrow> 1 < n \<and> (\<forall>d. 0 < d \<and> d dvd n \<longrightarrow> d = 1 \<or> d = n)"
proof -
  have "(\<forall>d. d dvd nat n \<longrightarrow> d = 1 \<or> d = nat n) \<longleftrightarrow> (\<forall>d. 0 < d \<and> d dvd n \<longrightarrow> d = 1 \<or> d = n)"
  proof (intro iffI allI impI)
    fix d :: int
    assume a: "\<forall>d. d dvd nat n \<longrightarrow> d = 1 \<or> d = nat n" and d: "0 < d \<and> d dvd n"
    then have "nat d dvd nat n" using assms by (simp add: nat_dvd_iff)
    then have "nat d = 1 \<or> nat d = nat n" using a by blast
    then show "d = 1 \<or> d = n" using d assms by auto
  next
    fix d :: nat
    assume a: "\<forall>d. 0 < d \<and> d dvd n \<longrightarrow> d = 1 \<or> d = n" and d: "d dvd nat n"
    show "d = 1 \<or> d = nat n"
    proof (cases "d = 0")
      case True
      then have "n = 0" using d assms by simp
      then show ?thesis using True by simp
    next
      case False
      have "int d dvd int (nat n)" using d by (simp only: int_dvd_int_iff)
      then have "0 < int d \<and> int d dvd n" using False assms by simp
      then have "int d = 1 \<or> int d = n" using a by blast
      then show ?thesis by auto
    qed
  qed
  then show ?thesis using assms by (auto simp: trial_division_prime)
qed

lemma odd_test_prime:
  fixes n :: int
  assumes "odd n" "3 \<le> n"
  shows "(\<forall>d. odd d \<and> 3 \<le> d \<and> d * d \<le> n \<longrightarrow> \<not> d dvd n)
         \<longleftrightarrow> (\<forall>d. 0 < d \<and> d dvd n \<longrightarrow> d = 1 \<or> d = n)"
proof
  assume a: "\<forall>d. odd d \<and> 3 \<le> d \<and> d * d \<le> n \<longrightarrow> \<not> d dvd n"
  show "\<forall>d. 0 < d \<and> d dvd n \<longrightarrow> d = 1 \<or> d = n"
  proof (intro allI impI, rule ccontr)
    fix d assume d: "0 < d \<and> d dvd n" and c: "\<not> (d = 1 \<or> d = n)"
    have "d \<le> n" using d assms(2) by (intro zdvd_imp_le) simp_all
    moreover have "odd d" using d assms(1) by auto
    moreover have "0 < d" "d \<noteq> 1" "d \<noteq> n" using d c by simp_all
    ultimately have "3 \<le> d" "d < n" by presburger+
    then have "\<exists>d. odd d \<and> 3 \<le> d \<and> d * d \<le> n \<and> d dvd n"
      using d assms(1) by (intro small_cofactor[of n d]) simp_all
    then show False using a by blast
  qed
next
  assume a: "\<forall>d. 0 < d \<and> d dvd n \<longrightarrow> d = 1 \<or> d = n"
  show "\<forall>d. odd d \<and> 3 \<le> d \<and> d * d \<le> n \<longrightarrow> \<not> d dvd n"
  proof (intro allI impI notI)
    fix d assume d: "odd d \<and> 3 \<le> d \<and> d * d \<le> n" and dv: "d dvd n"
    then have "d = n" using a by force
    moreover have "d * 3 \<le> d * d" using d by (intro mult_left_mono) simp_all
    ultimately show False using d by simp
  qed
qed

lemma floor_sqrt_iff:
  assumes "0 \<le> d" "0 \<le> n"
  shows "d \<le> \<lfloor>sqrt (of_int n)\<rfloor> \<longleftrightarrow> d * d \<le> n"
proof -
  have "d \<le> \<lfloor>sqrt (of_int n)\<rfloor> \<longleftrightarrow> real_of_int d \<le> sqrt (of_int n)" by (rule le_floor_iff)
  also have "\<dots> \<longleftrightarrow> sqrt ((of_int d)\<^sup>2) \<le> sqrt (of_int n)" using assms(1) by simp
  also have "\<dots> \<longleftrightarrow> (real_of_int d)\<^sup>2 \<le> of_int n" by (rule real_sqrt_le_iff)
  also have "\<dots> \<longleftrightarrow> d * d \<le> n" by (simp add: power2_eq_square flip: of_int_mult)
  finally show ?thesis .
qed

lemma isPrime_run:
  assumes "is_double (of_int n)" "0 \<le> n"
  shows "isPrime h (JNum (Fin (of_int n))) = Some (Inr (trial_division (nat n)))"
proof -
  have rem2: "frem (Fin (of_int n)) (Fin 2) = Fin (of_int (n mod 2))"
    using frem_int[of n 2] assms(2) by simp
  have "n < 2 \<or> n = 2 \<or> (2 < n \<and> even n) \<or> (3 \<le> n \<and> odd n)" by presburger
  then consider "n < 2" | "n = 2" | "2 < n" "even n" | "3 \<le> n" "odd n" by blast
  then show ?thesis
  proof cases
    case 1
    then show ?thesis using assms(2)
      by (simp add: isPrime_def validateInteger_def trial_division_int)
  next
    case 2
    then show ?thesis
      by (simp add: isPrime_def validateInteger_def strict_eq_def trial_division_def)
  next
    case 3
    then have "\<not> trial_division (nat n)"
      using trial_division_int[OF assms(2)] by (auto dest!: spec[of _ 2])
    then show ?thesis using 3
      by (simp add: isPrime_def validateInteger_def strict_eq_def rem2 del: frem.simps)
  next
    case 4
    then have n53: "n < 2 ^ 53" using odd_double_small[OF assms(1)] by simp
    have "isPrime_loop (Fin (of_int n)) (Fin (of_int 3))
          = Some (\<forall>d. odd d \<and> 3 \<le> d \<and> d * d \<le> n \<longrightarrow> \<not> d dvd n)"
      using 4 n53 by (intro isPrime_loop_run) auto
    also have "(\<forall>d. odd d \<and> 3 \<le> d \<and> d * d \<le> n \<longrightarrow> \<not> d dvd n) = trial_division (nat n)"
      using 4 odd_test_prime[of n] trial_division_int[OF assms(2)] by simp
    finally have "isPrime_loop (Fin (of_int n)) (Fin 3) = Some (trial_division (nat n))" by simp
    moreover have "n mod 2 = 1" using 4 by presburger
    ultimately show ?thesis using 4
      by (simp add: isPrime_def validateInteger_def strict_eq_def rem2 del: frem.simps)
  qed
qed

text \<open>
  C1: for an integer \<open>n \<ge> 0\<close>, \<open>isPrime\<close> returns what trial division by every candidate
  from 2 below \<open>n\<close> returns, which is whether \<open>n\<close> is prime.  It returns false below 2, true
  at 2 and false at the even numbers above 2; at an odd \<open>n \<ge> 3\<close> it returns false exactly
  when an odd \<open>d\<close> with \<open>3 \<le> d \<le> \<lfloor>\<surd>n\<rfloor>\<close> divides \<open>n\<close>.
\<close>

theorem isPrime_spec:
  assumes "is_double (of_int n)" and "0 \<le> n"
  shows "isPrime h (JNum (Fin (of_int n))) = Some (Inr (trial_division (nat n))) \<and>
    (trial_division (nat n) \<longleftrightarrow> 1 < n \<and> (\<forall>d. 0 < d \<and> d dvd n \<longrightarrow> d = 1 \<or> d = n)) \<and>
    (n < 2 \<longrightarrow> isPrime h (JNum (Fin (of_int n))) = Some (Inr False)) \<and>
    (n = 2 \<longrightarrow> isPrime h (JNum (Fin (of_int n))) = Some (Inr True)) \<and>
    (even n \<and> 2 < n \<longrightarrow> isPrime h (JNum (Fin (of_int n))) = Some (Inr False)) \<and>
    (odd n \<and> 3 \<le> n \<longrightarrow>
       (isPrime h (JNum (Fin (of_int n))) = Some (Inr False) \<longleftrightarrow>
        (\<exists>d. odd d \<and> 3 \<le> d \<and> d \<le> \<lfloor>sqrt (of_int n)\<rfloor> \<and> d dvd n)))"
proof -
  note run = isPrime_run[OF assms]
  note td = trial_division_int[OF assms(2)]
  have a: "n < 2 \<Longrightarrow> \<not> trial_division (nat n)" using td by simp
  have b: "n = 2 \<Longrightarrow> trial_division (nat n)" by (simp add: trial_division_def)
  have c: "even n \<and> 2 < n \<Longrightarrow> \<not> trial_division (nat n)"
    using td by (auto dest!: spec[of _ 2])
  have d: "\<not> trial_division (nat n) \<longleftrightarrow>
           (\<exists>d. odd d \<and> 3 \<le> d \<and> d \<le> \<lfloor>sqrt (of_int n)\<rfloor> \<and> d dvd n)" if "odd n \<and> 3 \<le> n"
  proof -
    have "trial_division (nat n) \<longleftrightarrow> (\<forall>d. odd d \<and> 3 \<le> d \<and> d * d \<le> n \<longrightarrow> \<not> d dvd n)"
      using that odd_test_prime[of n] td by simp
    moreover have "(odd d \<and> 3 \<le> d \<and> d * d \<le> n) = (odd d \<and> 3 \<le> d \<and> d \<le> \<lfloor>sqrt (of_int n)\<rfloor>)" for d
      using floor_sqrt_iff[of d n] assms(2) by auto
    ultimately show ?thesis by simp
  qed
  show ?thesis unfolding run using td a b c d by simp
qed

theorem isPrime_spec_witness:
  "is_double (of_int 17) \<and> (0::int) \<le> 17 \<and> isPrime empty_heap (JNum (Fin (of_int 17))) = Some (Inr True) \<and>
   is_double (of_int 9) \<and> (0::int) \<le> 9 \<and> isPrime empty_heap (JNum (Fin (of_int 9))) = Some (Inr False)"
proof -
  have d: "is_double (of_int 17)" "is_double (of_int 9)"
    by (simp_all add: is_double_def rnd_small)
  have t: "trial_division (nat 17)" "\<not> trial_division (nat 9)" by code_simp+
  show ?thesis
    using d t isPrime_spec[of 17, OF d(1), THEN conjunct1] isPrime_spec[of 9, OF d(2), THEN conjunct1]
    by simp
qed

section \<open>Statistics\<close>

lemma grid_scale:
  assumes "- 1074 \<le> e"
  shows "\<exists>k::int. (2::real) powi e = of_int k * 2 powi (- 1074)"
proof -
  define g where "g = (2::real) powi (- 1074)"
  have "(2::real) powi (e + 1074 + - 1074) = 2 powi (e + 1074) * 2 powi (- 1074)"
    by (rule power_int_add) simp
  then have "(2::real) powi e = 2 powi (e + 1074) * g"
    unfolding g_def by (simp only: add.assoc add.right_inverse add_0_right)
  moreover have "(2::real) powi (e + 1074) = of_int (2 ^ nat (e + 1074))"
    using assms by (simp add: power_int_def)
  ultimately have "(2::real) powi e = of_int (2 ^ nat (e + 1074)) * g" by (simp only:)
  then show ?thesis unfolding g_def by (rule exI)
qed

lemma is_double_grid:
  assumes "is_double x"
  shows "\<exists>m::int. x = of_int m * 2 powi (- 1074)"
proof (cases "x = 0")
  case True
  then show ?thesis by (intro exI[of _ 0]) simp
next
  case False
  define e where "e = quantum x"
  define g where "g = (2::real) powi (- 1074)"
  have eq: "x = of_int (rne (x / 2 powi e)) * 2 powi e"
    using assms False unfolding is_double_def rnd_def Let_def e_def[symmetric]
    by (auto split: if_splits)
  obtain k :: int where "(2::real) powi e = of_int k * g"
    using grid_scale[of e] quantum_ge[of x] unfolding e_def g_def by blast
  then have "x = of_int (rne (x / 2 powi e)) * (of_int k * g)" using eq by (simp only:)
  then have "x = of_int (rne (x / 2 powi e) * k) * g" by (simp only: of_int_mult mult.assoc)
  then show ?thesis unfolding g_def by (rule exI)
qed

lemma compare_positive:
  assumes "is_double x" "is_double y"
  shows "num_lt (Fin 0) (rnd (x - y)) \<longleftrightarrow> y < x"
proof
  assume "y < x"
  obtain a b :: int where ab: "x = of_int a * 2 powi (- 1074)" "y = of_int b * 2 powi (- 1074)"
    using assms is_double_grid by blast
  have d: "x - y = of_int (a - b) * 2 powi (- 1074)" by (simp add: ab algebra_simps)
  have p: "(0::real) < 2 powi (- 1074)" by simp
  have "0 < real_of_int (a - b)" using \<open>y < x\<close> p unfolding ab
    by (simp only: of_int_diff mult_less_cancel_right_pos diff_gt_0_iff_gt)
  then have "1 \<le> a - b" by simp
  then have "1 \<le> real_of_int (a - b)" by (simp only: of_int_1_le_iff)
  then have "1 * 2 powi (- 1074) \<le> x - y" unfolding d using p by (simp only: mult_le_cancel_right_pos)
  then have "num_le (Fin (of_int 1 * 2 powi (- 1074))) (rnd (x - y))"
    by (intro rnd_lower[where M = 1 and E = "- 1074"]) simp_all
  then show "num_lt (Fin 0) (rnd (x - y))"
    using p by (cases "rnd (x - y)") (auto simp: num_le_def strict_eq_def)
next
  assume a: "num_lt (Fin 0) (rnd (x - y))"
  show "y < x"
  proof (rule ccontr)
    assume "\<not> y < x"
    then have "x - y \<le> 0" by simp
    then have "num_le (rnd (x - y)) (Fin 0)"
      by (intro rnd_upper[where M = 0 and E = 0]) simp_all
    then show False using a by (cases "rnd (x - y)") (auto simp: num_le_def strict_eq_def)
  qed
qed


lemma rnd_unfold:
  assumes "x \<noteq> 0" and "rnd x = Fin s"
  shows "s = of_int (rne (x / 2 powi quantum x)) * 2 powi quantum x \<and> \<bar>s\<bar> < 2 ^ 1024"
  using assms unfolding rnd_def Let_def by (auto split: if_splits)

lemma rnd_fold:
  assumes "x \<noteq> 0" and "\<bar>of_int (rne (x / 2 powi quantum x)) * (2::real) powi quantum x\<bar> < 2 ^ 1024"
  shows "rnd x = Fin (of_int (rne (x / 2 powi quantum x)) * 2 powi quantum x)"
  using assms unfolding rnd_def Let_def by (auto split: if_splits)

lemma quantum_half:
  assumes "z \<noteq> 0" and "- 1074 < quantum z"
  shows "quantum (z / 2) = quantum z - 1"
proof -
  define k where "k = \<lfloor>log 2 \<bar>z\<bar>\<rfloor>"
  have ek: "quantum z = k - 52" using assms(2) by (simp add: quantum_def k_def max_def split: if_splits)
  have "0 < \<bar>z\<bar>" using assms(1) by simp
  from floor_log2_bounds[OF this] have b: "2 powi k \<le> \<bar>z\<bar>" "\<bar>z\<bar> < 2 powi (k + 1)"
    by (simp_all add: k_def)
  have h1: "(2::real) powi (k - 1) = 2 powi k / 2" by (simp add: power_int_diff)
  have h2: "(2::real) powi (k - 1 + 1) = 2 powi (k + 1) / 2" by (simp add: power_int_add)
  have "2 powi (k - 1) \<le> \<bar>z / 2\<bar>" "\<bar>z / 2\<bar> < 2 powi (k - 1 + 1)"
    unfolding h1 h2 using b by simp_all
  from quantum_eq[OF this] show ?thesis using assms(2) by (simp add: ek)
qed

lemma rnd_half_normal:
  assumes "z \<noteq> 0" and "- 1074 < quantum z" and "rnd z = Fin s"
  shows "rnd (z / 2) = Fin (s / 2)"
proof -
  define e where "e = quantum z"
  define m where "m = rne (z / 2 powi e)"
  note u = rnd_unfold[OF assms(1,3)]
  have s: "s = of_int m * 2 powi e" "\<bar>s\<bar> < 2 ^ 1024"
    unfolding e_def m_def by (rule u[THEN conjunct1], rule u[THEN conjunct2])
  have q: "quantum (z / 2) = e - 1" using quantum_half[OF assms(1,2)] by (simp add: e_def)
  have p2: "(2::real) powi e = 2 * 2 powi (e - 1)" by (simp add: power_int_diff)
  have sc: "z / 2 / 2 powi (e - 1) = z / 2 powi e" unfolding p2 by simp
  have y: "of_int m * (2::real) powi (e - 1) = s / 2" unfolding s(1) p2 by simp
  have "\<bar>s / 2\<bar> \<le> \<bar>s\<bar>" by simp
  then have fin: "\<bar>s / 2\<bar> < 2 ^ 1024" using s(2) by (rule order_le_less_trans)
  have "rnd (z / 2) = Fin (of_int (rne (z / 2 / 2 powi quantum (z / 2))) * 2 powi quantum (z / 2))"
  proof (rule rnd_fold)
    show "z / 2 \<noteq> 0" using assms(1) by simp
    show "\<bar>of_int (rne (z / 2 / 2 powi quantum (z / 2))) * (2::real) powi quantum (z / 2)\<bar> < 2 ^ 1024"
      unfolding q sc m_def[symmetric] y by (rule fin)
  qed
  then show ?thesis unfolding q sc m_def[symmetric] y .
qed

lemma rnd_grid_exact:
  assumes "z = of_int k * 2 powi (- 1074)" and "quantum z = - 1074" and "rnd z = Fin s"
  shows "s = z"
proof (cases "z = 0")
  case True
  then show ?thesis using assms(3) by (simp add: rnd_def)
next
  case False
  have "z / 2 powi (- 1074) = of_int k" unfolding assms(1) by simp
  then have "rne (z / 2 powi quantum z) = k" unfolding assms(2) by (simp only: rne_of_int)
  then show ?thesis using rnd_unfold[OF False assms(3)] assms(1,2) by (simp only:)
qed

lemma rnd_half:
  assumes "is_double p" and "is_double q" and "rnd (p + q) = Fin s"
  shows "rnd (s / 2) = rnd ((p + q) / 2)"
proof (cases "p + q = 0")
  case True
  then show ?thesis using assms(3) by (simp add: rnd_def)
next
  case False
  show ?thesis
  proof (cases "- 1074 < quantum (p + q)")
    case True
    have h: "rnd ((p + q) / 2) = Fin (s / 2)" by (rule rnd_half_normal[OF False True assms(3)])
    then have "is_double (s / 2)" by (rule rnd_idem)
    then show ?thesis using h by (simp add: is_double_def)
  next
    case no: False
    then have e: "quantum (p + q) = - 1074" using quantum_ge[of "p + q"] by simp
    obtain a b :: int where ab: "p = of_int a * 2 powi (- 1074)" "q = of_int b * 2 powi (- 1074)"
      using assms(1,2) is_double_grid by blast
    have "p + q = of_int (a + b) * 2 powi (- 1074)" unfolding ab by (simp only: of_int_add distrib_right)
    from rnd_grid_exact[OF this e assms(3)] show ?thesis by simp
  qed
qed

lemma present_dense: "present (map Some vs) = vs"
  by (induction vs) simp_all


lemma accepted_printable: "accepted v \<Longrightarrow> printable h v"
  by (cases v) (simp_all add: accepted_def printable_def)


lemma is_double_2_1023: "is_double (2 ^ 1023)"
proof -
  have "(2::real) ^ 52 * 2 ^ 971 = 2 ^ (52 + 971)" by (rule power_add[symmetric])
  then have "(2::real) ^ 1023 = of_int (2 ^ 52) * 2 powi 971" by simp
  then show ?thesis unfolding is_double_def
    by (rule rnd_exact[where M = "2 ^ 52" and E = 971]) simp_all
qed

lemma rnd_2_1024: "rnd (2 ^ 1023 + 2 ^ 1023) = PInf"
proof -
  have e: "(2::real) ^ 1023 + 2 ^ 1023 = 2 ^ 1024" by simp
  have d: "(2::real) ^ 1024 / 2 powi 972 = of_int (2 ^ 52)"
  proof -
    have "(2::real) ^ 52 * 2 ^ 972 = 2 ^ (52 + 972)" by (rule power_add[symmetric])
    then show ?thesis by simp
  qed
  have m: "of_int (2 ^ 52) * (2::real) powi 972 = 2 ^ 1024"
  proof -
    have "(2::real) ^ 52 * 2 ^ 972 = 2 ^ (52 + 972)" by (rule power_add[symmetric])
    then show ?thesis by simp
  qed
  have "rnd (2 ^ 1024) = PInf"
    by (subst rnd_eval[where k = 1024]) (simp_all add: rne_of_int[of "numeral k" for k, simplified])
  then show ?thesis by (simp only: e)
qed

subsection \<open>Average\<close>




text \<open>A hole is passed over by the sum and counted by the length.\<close>

lemma average_sparse:
  "average (empty_heap\<lparr>cells := (\<lambda>a. [Some (JNum (Fin 1)), None, Some (JNum (Fin 3))]), fresh := 1\<rparr>)
     (JArr 0) = Inr (rnd (4 / 3))"
  by (simp add: average_def Let_def empty_heap_def reduce_sum_def rnd_small)

subsection \<open>Median\<close>

lemma SortCompare_positive:
  assumes "is_double x" "is_double y"
  shows "num_lt (Fin 0) (SortCompare (JNum (Fin x)) (JNum (Fin y))) \<longleftrightarrow> y < x"
proof -
  have "\<not> isNaN (rnd (x - y))" using rnd_not_NaN[of "x - y"] by (cases "rnd (x - y)") simp_all
  then have "SortCompare (JNum (Fin x)) (JNum (Fin y)) = rnd (x - y)"
    by (simp add: SortCompare_def compareFn_def Let_def)
  then show ?thesis using compare_positive[OF assms] by simp
qed

lemma sort_insert_insort:
  assumes "is_double x" "\<forall>y \<in> set ys. is_double y"
  shows "sort_insert (JNum (Fin x)) (map (\<lambda>y. JNum (Fin y)) ys) = map (\<lambda>y. JNum (Fin y)) (insort x ys)"
  using assms(2)
proof (induction ys)
  case (Cons y ys)
  have "num_lt (Fin 0) (SortCompare (JNum (Fin x)) (JNum (Fin y))) \<longleftrightarrow> y < x"
    using SortCompare_positive[of x y] assms(1) Cons.prems by simp
  then show ?case using Cons by auto
qed simp

lemma foldr_sort_insert:
  assumes "\<forall>x \<in> set xs. is_double x"
  shows "foldr sort_insert (map (\<lambda>y. JNum (Fin y)) xs) [] = map (\<lambda>y. JNum (Fin y)) (sort xs)"
  using assms
proof (induction xs)
  case (Cons x xs)
  then show ?case using sort_insert_insort[of x "sort xs"] by simp
qed simp

lemma Get_dense: "i < length vs \<Longrightarrow> Get (map Some vs) i = vs ! i"
  by (simp add: Get_def)

lemma rnd_between:
  assumes "is_double l" and "is_double u" and "l \<le> x" and "x \<le> u"
  shows "\<exists>m. rnd x = Fin m \<and> l \<le> m \<and> m \<le> u"
proof -
  obtain M E where u: "u = of_int M * 2 powi E" "\<bar>M\<bar> < 2 ^ 53" "- 1074 \<le> E" "E \<le> 971"
    using assms(2) unfolding is_double_iff by blast
  obtain N F where l: "l = of_int N * 2 powi F" "\<bar>N\<bar> < 2 ^ 53" "- 1074 \<le> F" "F \<le> 971"
    using assms(1) unfolding is_double_iff by blast
  have a: "num_le (rnd x) (Fin u)" using u assms(4) by (rule rnd_upper)
  have b: "num_le (Fin l) (rnd x)" using l assms(3) by (rule rnd_lower)
  show ?thesis using a b by (cases "rnd x") (auto simp: num_le_def strict_eq_def)
qed

text \<open>
  C5, as the code has it.  On a non-empty array of finite numbers \<open>median\<close> sorts a copy
  into ascending order.  When the length is odd it returns the middle element of the
  copy.  When the length is even it returns the sum, halved, of the elements at the
  indices \<open>len div 2 - 1\<close> and \<open>len div 2\<close>, in double arithmetic: if the sum of the two
  stays finite, that is their mean rounded, a double that no other double beats in
  distance to the real mean; if the sum overflows, it is the infinity of that sign.  The
  sorted copy is a new array; the argument and every other array that existed before the
  call hold what they held.
\<close>

theorem median_spec:
  assumes "cells h a = map (\<lambda>x. Some (JNum (Fin x))) xs" and "xs \<noteq> []"
    and "\<forall>x \<in> set xs. is_double x" and "a < fresh h"
    and "p = sort xs ! (length xs div 2 - 1)" and "q = sort xs ! (length xs div 2)"
  shows "\<exists>r h'. median h (JArr a) = Inr (JNum r, h') \<and>
           (odd (length xs) \<longrightarrow> r = Fin q) \<and>
           (even (length xs) \<longrightarrow> r = fdiv (fadd (Fin p) (Fin q)) (Fin 2) \<and>
              (\<forall>s. rnd (p + q) = Fin s \<longrightarrow>
                 r = rnd ((p + q) / 2) \<and>
                 (\<exists>m. r = Fin m \<and> is_double m \<and>
                    (\<forall>d. is_double d \<longrightarrow> \<bar>m - (p + q) / 2\<bar> \<le> \<bar>d - (p + q) / 2\<bar>))) \<and>
              (rnd (p + q) = PInf \<longrightarrow> r = PInf) \<and> (rnd (p + q) = NInf \<longrightarrow> r = NInf)) \<and>
           cells h' a = cells h a \<and>
           (\<forall>b. b < fresh h \<longrightarrow> cells h' b = cells h b) \<and>
           cells h' (fresh h) = map (\<lambda>x. Some (JNum (Fin x))) (sort xs)"
proof -
  define f where "f = (\<lambda>x. JNum (Fin x))"
  define h1 where "h1 = snd (spread h (cells h a))"
  define h2 where "h2 = Array_sort h1 (fresh h)"
  define sorted where "sorted = cells h2 (fresh h)"
  define r where "r = (if odd (length xs) then Fin q else fdiv (fadd (Fin p) (Fin q)) (Fin 2))"
  have c: "cells h a = map Some (map f xs)" by (simp add: assms(1) f_def)
  have pr: "present (cells h a) = map f xs" unfolding c by (rule present_dense)
  have sp: "spread h (cells h a) = (fresh h, h1)" by (simp add: h1_def spread_def)
  have ne: "length (cells h a) \<noteq> 0" using assms(2) by (simp add: c)
  have v: "forEach_validateNumber h (present (cells h a)) = Inr ()"
    unfolding pr by (rule forEach_validateNumber_ok) (auto simp: f_def)
  have med: "median h (JArr a) =
      (if length sorted mod 2 = 0
       then Inr (JNum (fdiv (fadd (js_num (Get sorted (length sorted div 2 - 1)))
                             (js_num (Get sorted (length sorted div 2)))) (Fin 2)), h2)
       else Inr (Get sorted (length sorted div 2), h2))"
    unfolding median_def sorted_def h2_def using ne v by (simp add: Let_def sp)
  have copy: "cells h1 (fresh h) = map Some (map f xs)"
    by (simp add: h1_def spread_def c)
  have srt: "sorted = map Some (map f (sort xs))"
  proof -
    have "sorted = map Some (foldr sort_insert (map f xs) []) @
                   replicate (length (map Some (map f xs)) - length (map f xs)) None"
      unfolding sorted_def h2_def Array_sort_def copy present_dense by simp
    then show ?thesis using foldr_sort_insert[OF assms(3)] by (simp add: f_def)
  qed
  have keep: "cells h2 b = cells h b" if "b < fresh h" for b
    using that by (simp add: h2_def h1_def Array_sort_def spread_def)
  have len: "length sorted = length xs" by (simp add: srt)
  have mid: "length xs div 2 < length xs" using assms(2) by (cases xs) simp_all
  have n1: "Get sorted (length xs div 2) = JNum (Fin q)"
    unfolding srt using mid by (subst Get_dense) (simp_all add: f_def assms(6))
  have n2: "Get sorted (length xs div 2 - 1) = JNum (Fin p)"
    unfolding srt using mid by (subst Get_dense) (simp_all add: f_def assms(5))
  have res: "median h (JArr a) = Inr (JNum r, h2)"
    unfolding med len n1 n2 r_def by (simp add: odd_iff_mod_2_eq_one)
  have dp: "is_double p" and dq: "is_double q"
  proof -
    have "length xs div 2 - 1 < length (sort xs)" "length xs div 2 < length (sort xs)"
      using mid by simp_all
    then have "p \<in> set (sort xs)" "q \<in> set (sort xs)"
      unfolding assms(5,6) by (simp_all only: nth_mem)
    then show "is_double p" "is_double q" using assms(3) by simp_all
  qed
  have fin: "r = rnd ((p + q) / 2) \<and>
             (\<exists>m. r = Fin m \<and> is_double m \<and>
                (\<forall>d. is_double d \<longrightarrow> \<bar>m - (p + q) / 2\<bar> \<le> \<bar>d - (p + q) / 2\<bar>))"
    if ev: "even (length xs)" and s: "rnd (p + q) = Fin s" for s
  proof -
    have e: "r = rnd ((p + q) / 2)"
      using ev rnd_half[OF dp dq s] by (simp add: r_def s)
    have "\<exists>m. rnd ((p + q) / 2) = Fin m \<and> min p q \<le> m \<and> m \<le> max p q"
    proof (rule rnd_between)
      show "is_double (min p q)" using dp dq by (simp add: min_def)
      show "is_double (max p q)" using dp dq by (simp add: max_def)
      show "min p q \<le> (p + q) / 2" by (simp add: min_def field_simps)
      show "(p + q) / 2 \<le> max p q" by (simp add: max_def field_simps)
    qed
    then obtain m where m: "rnd ((p + q) / 2) = Fin m" by blast
    have "is_double m" using m by (rule rnd_idem)
    moreover have "\<forall>d. is_double d \<longrightarrow> \<bar>m - (p + q) / 2\<bar> \<le> \<bar>d - (p + q) / 2\<bar>"
      using rnd_nearest[OF m] by blast
    ultimately show ?thesis using e m by simp
  qed
  have pinf: "r = PInf" if "even (length xs)" and "rnd (p + q) = PInf"
    using that by (simp add: r_def)
  have ninf: "r = NInf" if "even (length xs)" and "rnd (p + q) = NInf"
    using that by (simp add: r_def)
  have odd: "odd (length xs) \<Longrightarrow> r = Fin q" by (simp add: r_def)
  have ev: "even (length xs) \<Longrightarrow> r = fdiv (fadd (Fin p) (Fin q)) (Fin 2)" by (simp add: r_def)
  have same: "cells h2 a = cells h a" using assms(4) by (rule keep)
  have new: "cells h2 (fresh h) = map (\<lambda>x. Some (JNum (Fin x))) (sort xs)"
    using srt by (simp add: sorted_def f_def)
  show ?thesis
    using res odd ev fin pinf ninf same keep new by blast
qed

theorem median_spec_witness:
  "(\<exists>h'. median (empty_heap\<lparr>cells := (\<lambda>a. map (\<lambda>x. Some (JNum (Fin x))) [1, 3, 2]), fresh := 1\<rparr>)
            (JArr 0) = Inr (JNum (Fin 2), h') \<and>
         cells h' 0 = map (\<lambda>x. Some (JNum (Fin x))) [1, 3, 2] \<and>
         cells h' 1 = map (\<lambda>x. Some (JNum (Fin x))) [1, 2, 3]) \<and>
   (\<exists>h'. median (empty_heap\<lparr>cells := (\<lambda>a. map (\<lambda>x. Some (JNum (Fin x))) [1, 2, 3, 4]), fresh := 1\<rparr>)
            (JArr 0) = Inr (JNum (Fin (5 / 2)), h') \<and>
         cells h' 0 = map (\<lambda>x. Some (JNum (Fin x))) [1, 2, 3, 4])"
proof -
  have d: "\<forall>x \<in> set [1, 3, 2]. is_double x" "\<forall>x \<in> set [1, 2, 3, 4]. is_double x"
    by (simp_all add: is_double_def rnd_small)
  have e: "rnd (5 / 2) = Fin (5 / 2)"
    by (rule rnd_exact[where M = 5 and E = "- 1"]) (simp_all add: power_int_minus)
  have a: "\<exists>h'. median (empty_heap\<lparr>cells := (\<lambda>a. map (\<lambda>x. Some (JNum (Fin x))) [1, 3, 2]), fresh := 1\<rparr>)
            (JArr 0) = Inr (JNum (Fin 2), h') \<and>
         cells h' 0 = map (\<lambda>x. Some (JNum (Fin x))) [1, 3, 2] \<and>
         cells h' 1 = map (\<lambda>x. Some (JNum (Fin x))) [1, 2, 3]"
    using median_spec[of "empty_heap\<lparr>cells := (\<lambda>a. map (\<lambda>x. Some (JNum (Fin x))) [1, 3, 2]), fresh := 1\<rparr>"
        0 "[1, 3, 2]" 1 2, OF _ _ d(1)]
    by (auto simp: empty_heap_def)
  have b: "\<exists>h'. median (empty_heap\<lparr>cells := (\<lambda>a. map (\<lambda>x. Some (JNum (Fin x))) [1, 2, 3, 4]), fresh := 1\<rparr>)
            (JArr 0) = Inr (JNum (Fin (5 / 2)), h') \<and>
         cells h' 0 = map (\<lambda>x. Some (JNum (Fin x))) [1, 2, 3, 4]"
    using median_spec[of "empty_heap\<lparr>cells := (\<lambda>a. map (\<lambda>x. Some (JNum (Fin x))) [1, 2, 3, 4]), fresh := 1\<rparr>"
        0 "[1, 2, 3, 4]" 2 3, OF _ _ d(2)]
    by (auto simp: empty_heap_def rnd_small e)
  show ?thesis using a b by (rule conjI)
qed

text \<open>
  C5, as the specification words it, fails on two equal finite numbers whose sum overflows:
  their mean is the number itself, and \<open>median\<close> returns infinity.
\<close>

theorem median_overflow_counterexample:
  "is_double (2 ^ 1023) \<and>
   map_sum id fst
     (median (empty_heap\<lparr>cells := (\<lambda>a. [Some (JNum (Fin (2 ^ 1023))), Some (JNum (Fin (2 ^ 1023)))]),
                         fresh := 1\<rparr>) (JArr 0)) = Inr (JNum PInf)"
proof -
  define g :: real where "g = 2 ^ 1023"
  have "rnd (g + g) = PInf" unfolding g_def by (rule rnd_2_1024)
  then have s: "rnd (2 * g) = PInf" by (simp only: mult_2)
  have "map_sum id fst
     (median (empty_heap\<lparr>cells := (\<lambda>a. [Some (JNum (Fin g)), Some (JNum (Fin g))]), fresh := 1\<rparr>)
        (JArr 0)) = Inr (JNum PInf)"
    by (simp add: median_def Let_def empty_heap_def spread_def Array_sort_def SortCompare_def
        compareFn_def Get_def rnd_small s)
  then show ?thesis using is_double_2_1023 by (simp only: g_def simp_thms)
qed

text \<open>
  The copy of a sparse array holds \<open>undefined\<close> in place of each hole, and the sort puts
  those last: the holes are not validated, and the median is taken over the longer copy.
\<close>

lemma median_sparse:
  "map_sum id fst
     (median (empty_heap\<lparr>cells := (\<lambda>a. [Some (JNum (Fin 1)), None, Some (JNum (Fin 3))]), fresh := 1\<rparr>)
        (JArr 0)) = Inr (JNum (Fin 3)) \<and>
   map_sum id fst
     (median (empty_heap\<lparr>cells := (\<lambda>a. [None, Some (JNum (Fin 1))]), fresh := 1\<rparr>)
        (JArr 0)) = Inr (JNum NaN)"
  by (simp add: median_def Let_def empty_heap_def spread_def Array_sort_def SortCompare_def
      compareFn_def Get_def rnd_small)

section \<open>Counting beyond \<open>2 ^ 53\<close>\<close>

text \<open>
  The loops of \<open>factorial\<close> and \<open>fibonacci\<close> count with \<open>i++\<close> up to the argument.  At
  \<open>2 ^ 53\<close> the increment rounds back to \<open>2 ^ 53\<close>, so for an argument from \<open>2 ^ 53\<close> on the
  counter never passes it and the call does not return.
\<close>

lemma counter_stuck: "fadd (Fin (2 ^ 53)) (Fin 1) = Fin (2 ^ 53)"
proof -
  have "rnd 9007199254740993 = Fin 9007199254740992"
    by (subst rnd_eval[where k = 53]) (simp_all add: rne_def)
  then show ?thesis by simp
qed

lemma counter_bounded:
  assumes "k \<le> 2 ^ 53"
  shows "\<exists>k'. fadd (Fin (of_nat k)) (Fin 1) = Fin (of_nat k') \<and> k' \<le> 2 ^ 53"
proof (cases "k = 2 ^ 53")
  case True
  then show ?thesis using counter_stuck by (intro exI[of _ k]) simp
next
  case False
  then have "k < 2 ^ 53" using assms by simp
  then show ?thesis using fadd_one[of k] by (intro exI[of _ "Suc k"]) simp
qed

lemma counter_below:
  assumes "2 ^ 53 \<le> x" "k \<le> 2 ^ 53"
  shows "num_le (Fin (of_nat k)) (Fin x)"
proof -
  have "real k \<le> real (2 ^ 53)" using assms(2) by (simp only: of_nat_le_iff)
  then show ?thesis using assms(1) by simp
qed

lemma fibonacci_loop_diverges:
  assumes "2 ^ 53 \<le> x" "k \<le> 2 ^ 53"
  shows "fibonacci_loop (Fin x) a b (Fin (of_nat k)) = None"
proof -
  define Q where "Q n i \<longleftrightarrow> (\<exists>x k. n = Fin x \<and> 2 ^ 53 \<le> x \<and> i = Fin (of_nat k) \<and> k \<le> 2 ^ 53)"
    for n i
  have never: "\<not> Q n i" if run: "fibonacci_loop n a b i = Some y" for n a b i y
  proof (rule fibonacci_loop.raw_induct[where P = "\<lambda>n a b i y. \<not> Q n i", OF _ run], goal_cases)
    case (1 f n a b i y)
    show ?case
    proof
      assume "Q n i"
      then obtain x k where q: "n = Fin x" "2 ^ 53 \<le> x" "i = Fin (of_nat k)" "k \<le> 2 ^ 53"
        unfolding Q_def by blast
      have le: "num_le i n" unfolding q(1,3) using q(2,4) by (rule counter_below)
      obtain k' where k': "fadd i (Fin 1) = Fin (of_nat k')" "k' \<le> 2 ^ 53"
        using counter_bounded[OF q(4)] unfolding q(3) by blast
      have "f n b (fadd a b) (Fin (of_nat k')) = Some y" using 1(2) le by (simp add: k')
      then have "\<not> Q n (Fin (of_nat k'))" using 1(1) by blast
      then show False unfolding Q_def using q(1,2) k'(2) by blast
    qed
  qed
  have "Q (Fin x) (Fin (of_nat k))" unfolding Q_def using assms by blast
  then show ?thesis using never[of "Fin x" a b "Fin (of_nat k)"] by (cases "fibonacci_loop (Fin x) a b (Fin (of_nat k))") auto
qed

lemma factorial_loop_diverges:
  assumes "2 ^ 53 \<le> x" "k \<le> 2 ^ 53"
  shows "factorial_loop (Fin x) r (Fin (of_nat k)) = None"
proof -
  define Q where "Q n i \<longleftrightarrow> (\<exists>x k. n = Fin x \<and> 2 ^ 53 \<le> x \<and> i = Fin (of_nat k) \<and> k \<le> 2 ^ 53)"
    for n i
  have never: "\<not> Q n i" if run: "factorial_loop n r i = Some y" for n r i y
  proof (rule factorial_loop.raw_induct[where P = "\<lambda>n r i y. \<not> Q n i", OF _ run], goal_cases)
    case (1 f n r i y)
    show ?case
    proof
      assume "Q n i"
      then obtain x k where q: "n = Fin x" "2 ^ 53 \<le> x" "i = Fin (of_nat k)" "k \<le> 2 ^ 53"
        unfolding Q_def by blast
      have le: "num_le i n" unfolding q(1,3) using q(2,4) by (rule counter_below)
      obtain k' where k': "fadd i (Fin 1) = Fin (of_nat k')" "k' \<le> 2 ^ 53"
        using counter_bounded[OF q(4)] unfolding q(3) by blast
      have "f n (fmul r i) (Fin (of_nat k')) = Some y" using 1(2) le by (simp add: k')
      then have "\<not> Q n (Fin (of_nat k'))" using 1(1) by blast
      then show False unfolding Q_def using q(1,2) k'(2) by blast
    qed
  qed
  have "Q (Fin x) (Fin (of_nat k))" unfolding Q_def using assms by blast
  then show ?thesis using never[of "Fin x" r "Fin (of_nat k)"] by (cases "factorial_loop (Fin x) r (Fin (of_nat k))") auto
qed

lemma fibonacci_diverges:
  assumes "2 ^ 53 \<le> n"
  shows "fibonacci h (JNum (Fin (of_int n))) = None"
proof -
  have x: "(2::real) ^ 53 \<le> of_int n" using assms by (metis of_int_le_iff of_int_numeral of_int_power)
  have "fibonacci_loop (Fin (of_int n)) (Fin 0) (Fin 1) (Fin (of_nat 2)) = None"
    by (rule fibonacci_loop_diverges[OF x]) simp
  then show ?thesis using x assms
    by (simp add: fibonacci_def validateInteger_def strict_eq_def)
qed

lemma factorial_diverges:
  assumes "2 ^ 53 \<le> n"
  shows "factorial h (JNum (Fin (of_int n))) = None"
proof -
  have x: "(2::real) ^ 53 \<le> of_int n" using assms by (metis of_int_le_iff of_int_numeral of_int_power)
  have "factorial_loop (Fin (of_int n)) (Fin 1) (Fin (of_nat 2)) = None"
    by (rule factorial_loop_diverges[OF x]) simp
  then show ?thesis using x assms
    by (simp add: factorial_def validateInteger_def strict_eq_def)
qed

end
